theory Spec2Isabelle
  imports
    Main
    "HOL-Library.Word"
    "HOL-Library.Char_ord"
    "HOL-Library.List_Lexorder"
    "HOL-Library.Option_ord"
    "HOL-Library.Multiset"
begin

section \<open>Kinds, type descriptions and the store of type objects\<close>

text \<open>
  Modelled from the spec: the closed enumeration of kinds (the declaration of
  \<open>NomsKind\<close> is not among the sources). The constructors carry the names the
  sources use (\<open>BoolKind\<close>, \<open>NumberKind\<close>, ...).
\<close>

datatype NomsKind =
    BoolKind | NumberKind | StringKind | BlobKind | ListKind | MapKind | RefKind
  | SetKind | StructKind | TypeKind | CycleKind | UnionKind | ValueKind

text \<open>
  Modelled from the spec: a content address (\<open>ref.Ref\<close> in Go, \<open>Hash\<close> in JS; the
  package is not among the sources) is represented by its stable external string
  form, ordered as strings are.
\<close>

type_synonym Hash = string

text \<open>
  A \<open>*Type\<close> is a pointer. Type objects are mutable and may point at themselves
  (the tests build recursive struct types by assigning to a field after construction),
  so type objects live in an explicit store and refer to each other by address.
  \<open>StructDesc\<close> holds a Go \<open>map[string]*Type\<close> (a JS object in the JS sources); it is
  kept as an association list in the order the entries were given.
\<close>

type_synonym ptr = nat

datatype TypeDesc =
    PrimitiveDesc NomsKind
  | CompoundDesc NomsKind "ptr list"
  | StructDesc string "(string \<times> ptr) list"

record Type =
  Desc :: TypeDesc
  ref :: "Hash option"

type_synonym store = "Type list"

text \<open>
  Modelled from the spec: \<open>TypeDesc.Kind()\<close> (the descriptions' file is not among the
  sources): a primitive description is its kind, a compound description carries its
  kind, a struct description is of kind Struct.
\<close>

fun desc_Kind :: "TypeDesc \<Rightarrow> NomsKind" where
  "desc_Kind (PrimitiveDesc k) = k"
| "desc_Kind (CompoundDesc k elemTypes) = k"
| "desc_Kind (StructDesc name flds) = StructKind"

definition Kind :: "Type \<Rightarrow> NomsKind" where
  "Kind t = desc_Kind (Desc t)"

definition IsOrdered :: "Type \<Rightarrow> bool" where
  "IsOrdered t =
     (case desc_Kind (Desc t) of
        NumberKind \<Rightarrow> True
      | StringKind \<Rightarrow> True
      | RefKind \<Rightarrow> True
      | _ \<Rightarrow> False)"

text \<open>
  Modelled from the spec: a \<open>Ref\<close> value pairs the content address of its target with
  the type of the target and the height of the referenced subtree.
\<close>

record RefValue =
  targetRef :: Hash
  targetType :: ptr
  height :: nat

definition Chunks :: "Type \<Rightarrow> RefValue list" where
  "Chunks t = []"

text \<open>
  Modelled from the spec: \<open>StructDesc.IterFields\<close> (not among the sources) visits the
  fields in the canonical field order. A Go map has no order of its own, and the
  encodings the test suite expects list the fields of \<open>{x: 42, b: true}\<close> as \<open>b, x\<close> and
  those of \<open>{v: ..., cs: ...}\<close> as \<open>cs, v\<close>: the canonical order is ascending field name.
\<close>

definition IterFields :: "(string \<times> 'a) list \<Rightarrow> (string \<times> 'a) list" where
  "IterFields flds = sort_key fst flds"

definition ChildValues :: "Type \<Rightarrow> ptr list" where
  "ChildValues t =
     (case Desc t of
        CompoundDesc k elemTypes \<Rightarrow> elemTypes
      | StructDesc name flds \<Rightarrow> map snd (IterFields flds)
      | PrimitiveDesc k \<Rightarrow> [])"

subsection \<open>Constructors\<close>

datatype error = InvalidFieldName | InvalidNomsKind

definition buildType :: "TypeDesc \<Rightarrow> store \<Rightarrow> ptr \<times> store" where
  "buildType desc s = (length s, s @ [\<lparr>Desc = desc, ref = None\<rparr>])"

definition makePrimitiveType :: "NomsKind \<Rightarrow> store \<Rightarrow> ptr \<times> store" where
  "makePrimitiveType k s = buildType (PrimitiveDesc k) s"

text \<open>
  The package-level variables, in the order of their declarations: \<open>typeForType\<close>,
  \<open>NumberType\<close>, \<open>BoolType\<close>, \<open>StringType\<close>, \<open>BlobType\<close>, \<open>TypeType\<close>, \<open>ValueType\<close>.
\<close>

definition init_store :: store where
  "init_store =
     snd (makePrimitiveType ValueKind (snd (makePrimitiveType TypeKind
       (snd (makePrimitiveType BlobKind (snd (makePrimitiveType StringKind
         (snd (makePrimitiveType BoolKind (snd (makePrimitiveType NumberKind
           (snd (makePrimitiveType TypeKind [])))))))))))))"

definition typeForType :: ptr where "typeForType = 0"
definition NumberType :: ptr where "NumberType = 1"
definition BoolType :: ptr where "BoolType = 2"
definition StringType :: ptr where "StringType = 3"
definition BlobType :: ptr where "BlobType = 4"
definition TypeType :: ptr where "TypeType = 5"
definition ValueType :: ptr where "ValueType = 6"

definition Type_Type :: "Type \<Rightarrow> ptr" where
  "Type_Type t = typeForType"

definition MakePrimitiveType :: "NomsKind \<Rightarrow> error + ptr" where
  "MakePrimitiveType k =
     (case k of
        BoolKind \<Rightarrow> Inr BoolType
      | NumberKind \<Rightarrow> Inr NumberType
      | StringKind \<Rightarrow> Inr StringType
      | BlobKind \<Rightarrow> Inr BlobType
      | ValueKind \<Rightarrow> Inr ValueType
      | TypeKind \<Rightarrow> Inr TypeType
      | _ \<Rightarrow> Inl InvalidNomsKind)"

text \<open>
  \<open>fieldNameRe\<close> is \<^verbatim>\<open>^[a-zA-Z][a-zA-Z0-9_]*$\<close>: one character of the first class, then
  the longest run of characters of the second class, then the end of the text.
\<close>

definition isAlpha :: "char \<Rightarrow> bool" where
  "isAlpha c =
     (let n = (of_char c :: nat) in (97 \<le> n \<and> n \<le> 122) \<or> (65 \<le> n \<and> n \<le> 90))"

definition isWord :: "char \<Rightarrow> bool" where
  "isWord c =
     (let n = (of_char c :: nat)
      in (97 \<le> n \<and> n \<le> 122) \<or> (65 \<le> n \<and> n \<le> 90) \<or> (48 \<le> n \<and> n \<le> 57) \<or> n = 95)"

definition fieldNameRe_MatchString :: "string \<Rightarrow> bool" where
  "fieldNameRe_MatchString name =
     (case name of
        [] \<Rightarrow> False
      | c # cs \<Rightarrow> isAlpha c \<and> dropWhile isWord cs = [])"

definition verifyFieldName :: "string \<Rightarrow> error + unit" where
  "verifyFieldName name =
     (if fieldNameRe_MatchString name then Inr () else Inl InvalidFieldName)"

fun verifyFieldNames :: "(string \<times> ptr) list \<Rightarrow> error + unit" where
  "verifyFieldNames [] = Inr ()"
| "verifyFieldNames ((fn, t) # flds) =
     (case verifyFieldName fn of
        Inl e \<Rightarrow> Inl e
      | Inr u \<Rightarrow> verifyFieldNames flds)"

definition MakeStructType ::
  "string \<Rightarrow> (string \<times> ptr) list \<Rightarrow> store \<Rightarrow> error + ptr \<times> store" where
  "MakeStructType name flds s =
     (case verifyFieldNames flds of
        Inl e \<Rightarrow> Inl e
      | Inr u \<Rightarrow> Inr (buildType (StructDesc name flds) s))"

definition MakeListType :: "ptr \<Rightarrow> store \<Rightarrow> ptr \<times> store" where
  "MakeListType elemType s = buildType (CompoundDesc ListKind [elemType]) s"

definition MakeSetType :: "ptr \<Rightarrow> store \<Rightarrow> ptr \<times> store" where
  "MakeSetType elemType s = buildType (CompoundDesc SetKind [elemType]) s"

definition MakeMapType :: "ptr \<Rightarrow> ptr \<Rightarrow> store \<Rightarrow> ptr \<times> store" where
  "MakeMapType keyType valType s = buildType (CompoundDesc MapKind [keyType, valType]) s"

definition MakeRefType :: "ptr \<Rightarrow> store \<Rightarrow> ptr \<times> store" where
  "MakeRefType elemType s = buildType (CompoundDesc RefKind [elemType]) s"

text \<open>
  The field-name grammar in the words of the spec: a letter followed by letters,
  digits and underscores.
\<close>

definition field_name_grammar :: "string set" where
  "field_name_grammar =
     {name. \<exists>c cs. name = c # cs
        \<and> c \<in> set (''abcdefghijklmnopqrstuvwxyz'' @ ''ABCDEFGHIJKLMNOPQRSTUVWXYZ'')
        \<and> set cs \<subseteq> set (''abcdefghijklmnopqrstuvwxyz'' @ ''ABCDEFGHIJKLMNOPQRSTUVWXYZ''
                          @ ''0123456789'' @ ''_'')}"

section \<open>The batch store adaptor\<close>

text \<open>
  \<open>chunks.ChunkStore\<close> is an interface of a collaborator: its methods are parameters
  over a state \<open>'cs\<close> of the underlying store. \<open>Hints\<close> is a set of content addresses.
\<close>

type_synonym Hints = "Hash set"

record 'cs BatchStoreAdaptor =
  cs :: 'cs

definition NewBatchStoreAdaptor :: "'cs \<Rightarrow> 'cs BatchStoreAdaptor" where
  "NewBatchStoreAdaptor c = \<lparr>cs = c\<rparr>"

definition Get :: "('cs \<Rightarrow> Hash \<Rightarrow> 'chunk) \<Rightarrow> 'cs BatchStoreAdaptor \<Rightarrow> Hash \<Rightarrow> 'chunk" where
  "Get cs_Get lbs r = cs_Get (cs lbs) r"

definition SchedulePut ::
  "('chunk \<Rightarrow> 'cs \<Rightarrow> 'cs) \<Rightarrow> 'chunk \<Rightarrow> Hints \<Rightarrow> 'cs BatchStoreAdaptor \<Rightarrow> 'cs BatchStoreAdaptor" where
  "SchedulePut cs_Put c hints lbs = lbs\<lparr>cs := cs_Put c (cs lbs)\<rparr>"

definition Flush :: "'cs BatchStoreAdaptor \<Rightarrow> 'cs BatchStoreAdaptor" where
  "Flush lbs = lbs"

definition Close ::
  "('cs \<Rightarrow> 'err \<times> 'cs) \<Rightarrow> 'cs BatchStoreAdaptor \<Rightarrow> 'err \<times> 'cs BatchStoreAdaptor" where
  "Close cs_Close lbs =
     (let lbs1 = Flush lbs;
          (err, c) = cs_Close (cs lbs1)
      in (err, lbs1\<lparr>cs := c\<rparr>))"

text \<open>A client that schedules the chunks of a list, each with its hints, in order.\<close>

fun schedule_all ::
  "('chunk \<Rightarrow> 'cs \<Rightarrow> 'cs) \<Rightarrow> ('chunk \<times> Hints) list \<Rightarrow> 'cs BatchStoreAdaptor
     \<Rightarrow> 'cs BatchStoreAdaptor" where
  "schedule_all cs_Put [] lbs = lbs"
| "schedule_all cs_Put ((c, hints) # rest) lbs =
     schedule_all cs_Put rest (SchedulePut cs_Put c hints lbs)"

text \<open>
  An underlying store that records what it is handed: the chunks put, oldest first,
  and whether it was closed.
\<close>

record 'chunk recording_store =
  received :: "'chunk list"
  closed :: bool

definition rec_Put :: "'chunk \<Rightarrow> 'chunk recording_store \<Rightarrow> 'chunk recording_store" where
  "rec_Put c st = st\<lparr>received := received st @ [c]\<rparr>"

definition rec_Close :: "'chunk recording_store \<Rightarrow> unit \<times> 'chunk recording_store" where
  "rec_Close st = ((), st\<lparr>closed := True\<rparr>)"

section \<open>The primitive stream\<close>

text \<open>
  The codec writes to and reads from a stream of primitives. The test suite's
  \<open>TestWriter\<close> keeps what is written as an array of tagged items and its \<open>TestReader\<close>
  reads such an array from the front, failing (\<open>invariant\<close>) at the end of the array and
  on an item of another tag. A number is an IEEE-754 double, kept as its bit pattern.
\<close>

type_synonym float64 = "64 word"

datatype token =
    Bytes "8 word list"
  | Uint8 nat
  | Uint32 nat
  | Uint64 nat
  | Float64 float64
  | Boolean bool
  | Str string

fun readBytes :: "token list \<Rightarrow> (8 word list \<times> token list) option" where
  "readBytes (Bytes v # a) = Some (v, a)"
| "readBytes a = None"

fun readUint8 :: "token list \<Rightarrow> (nat \<times> token list) option" where
  "readUint8 (Uint8 v # a) = Some (v, a)"
| "readUint8 a = None"

fun readUint32 :: "token list \<Rightarrow> (nat \<times> token list) option" where
  "readUint32 (Uint32 v # a) = Some (v, a)"
| "readUint32 a = None"

fun readUint64 :: "token list \<Rightarrow> (nat \<times> token list) option" where
  "readUint64 (Uint64 v # a) = Some (v, a)"
| "readUint64 a = None"

fun readFloat64 :: "token list \<Rightarrow> (float64 \<times> token list) option" where
  "readFloat64 (Float64 v # a) = Some (v, a)"
| "readFloat64 a = None"

fun readBool :: "token list \<Rightarrow> (bool \<times> token list) option" where
  "readBool (Boolean v # a) = Some (v, a)"
| "readBool a = None"

fun readString :: "token list \<Rightarrow> (string \<times> token list) option" where
  "readString (Str v # a) = Some (v, a)"
| "readString a = None"

definition readHash :: "token list \<Rightarrow> (Hash \<times> token list) option" where
  "readHash a = readString a"

definition writeHash :: "Hash \<Rightarrow> token list" where
  "writeHash h = [Str h]"

text \<open>
  Modelled from the spec: the numbers of the kinds (their declaration is not among the
  sources); the kinds are numbered in the order the spec lists them.
\<close>

fun kindCode :: "NomsKind \<Rightarrow> nat" where
  "kindCode BoolKind = 0"
| "kindCode NumberKind = 1"
| "kindCode StringKind = 2"
| "kindCode BlobKind = 3"
| "kindCode ListKind = 4"
| "kindCode MapKind = 5"
| "kindCode RefKind = 6"
| "kindCode SetKind = 7"
| "kindCode StructKind = 8"
| "kindCode TypeKind = 9"
| "kindCode CycleKind = 10"
| "kindCode UnionKind = 11"
| "kindCode ValueKind = 12"

definition kindOfCode :: "nat \<Rightarrow> NomsKind option" where
  "kindOfCode c =
     (if c = 0 then Some BoolKind else if c = 1 then Some NumberKind
      else if c = 2 then Some StringKind else if c = 3 then Some BlobKind
      else if c = 4 then Some ListKind else if c = 5 then Some MapKind
      else if c = 6 then Some RefKind else if c = 7 then Some SetKind
      else if c = 8 then Some StructKind else if c = 9 then Some TypeKind
      else if c = 10 then Some CycleKind else if c = 11 then Some UnionKind
      else if c = 12 then Some ValueKind else None)"

definition writeKind :: "NomsKind \<Rightarrow> token list" where
  "writeKind k = [Uint8 (kindCode k)]"

definition readKind :: "token list \<Rightarrow> (NomsKind \<times> token list) option" where
  "readKind a =
     (case readUint8 a of
        None \<Rightarrow> None
      | Some (c, a1) \<Rightarrow> (case kindOfCode c of None \<Rightarrow> None | Some k \<Rightarrow> Some (k, a1)))"

definition isPrimitiveKind :: "NomsKind \<Rightarrow> bool" where
  "isPrimitiveKind k =
     (case k of
        BoolKind \<Rightarrow> True | NumberKind \<Rightarrow> True | StringKind \<Rightarrow> True
      | BlobKind \<Rightarrow> True | ValueKind \<Rightarrow> True | TypeKind \<Rightarrow> True
      | _ \<Rightarrow> False)"

section \<open>The encoding of types\<close>

text \<open>
  Modelled from the spec: the encoder of types (the encoder is not among the sources;
  the encodings the test suite expects are). A primitive type is its kind byte; a List,
  Set, Map or Ref type is its kind byte followed by each element type; a Union type is
  its kind byte, the number of members and each member; a struct type is its kind byte,
  its name, the number of fields and each field's name and type in the canonical order.
  The encoder carries the struct types it is inside of, innermost first; a struct type it
  meets again is written as the Cycle kind and its position in that list (0 for the
  innermost) and is not walked again.

  The graph of type objects may be cyclic in other ways (a compound type among its own
  element types), on which this walk does not end: the function takes fuel, and \<open>None\<close>
  is a walk that did not end within the fuel, or met a dangling pointer or a description
  whose kind does not fit its shape.
\<close>

fun indexOfType :: "ptr \<Rightarrow> ptr list \<Rightarrow> nat option" where
  "indexOfType p [] = None"
| "indexOfType p (q # qs) =
     (if p = q then Some 0 else map_option Suc (indexOfType p qs))"

fun writeType :: "nat \<Rightarrow> store \<Rightarrow> ptr list \<Rightarrow> ptr \<Rightarrow> token list option"
  and writeTypes :: "nat \<Rightarrow> store \<Rightarrow> ptr list \<Rightarrow> ptr list \<Rightarrow> token list option"
  and writeFields :: "nat \<Rightarrow> store \<Rightarrow> ptr list \<Rightarrow> (string \<times> ptr) list \<Rightarrow> token list option"
where
  "writeType 0 s parentStructTypes p = None"
| "writeType (Suc n) s parentStructTypes p =
     (if p < length s then
        (case Desc (s ! p) of
           PrimitiveDesc k \<Rightarrow> (if isPrimitiveKind k then Some (writeKind k) else None)
         | CompoundDesc k elemTypes \<Rightarrow>
             (if k = UnionKind then
                map_option (\<lambda>ts. writeKind k @ [Uint32 (length elemTypes)] @ ts)
                  (writeTypes n s parentStructTypes elemTypes)
              else if k = ListKind \<or> k = MapKind \<or> k = RefKind \<or> k = SetKind then
                map_option (\<lambda>ts. writeKind k @ ts) (writeTypes n s parentStructTypes elemTypes)
              else None)
         | StructDesc name flds \<Rightarrow>
             (case indexOfType p parentStructTypes of
                Some i \<Rightarrow> Some (writeKind CycleKind @ [Uint32 i])
              | None \<Rightarrow>
                  map_option (\<lambda>ts. writeKind StructKind @ [Str name, Uint32 (length flds)] @ ts)
                    (writeFields n s (p # parentStructTypes) (IterFields flds))))
      else None)"
| "writeTypes n s parentStructTypes [] = Some []"
| "writeTypes n s parentStructTypes (t # ts) =
     (case writeType n s parentStructTypes t of
        None \<Rightarrow> None
      | Some a \<Rightarrow> map_option (\<lambda>b. a @ b) (writeTypes n s parentStructTypes ts))"
| "writeFields n s parentStructTypes [] = Some []"
| "writeFields n s parentStructTypes ((name, t) # flds) =
     (case writeType n s parentStructTypes t of
        None \<Rightarrow> None
      | Some a \<Rightarrow> map_option (\<lambda>b. Str name # a @ b) (writeFields n s parentStructTypes flds))"

section \<open>Content addresses of types, equality, union types\<close>

text \<open>
  Modelled from the spec: \<open>EnsureRef\<close> (not among the sources). The content address of a
  value is the digest of its canonical encoding, computed on first use and kept in the
  value's \<open>ref\<close> cell; a type, as a value, is encoded as the Type kind followed by the
  encoding of the type. The digest function \<open>H\<close> is a parameter.
\<close>

definition getRef :: "(token list \<Rightarrow> Hash) \<Rightarrow> nat \<Rightarrow> store \<Rightarrow> ptr \<Rightarrow> Hash option" where
  "getRef H n s p = map_option (\<lambda>ts. H (writeKind TypeKind @ ts)) (writeType n s [] p)"

definition EnsureRef ::
  "(token list \<Rightarrow> Hash) \<Rightarrow> nat \<Rightarrow> ptr \<Rightarrow> store \<Rightarrow> (Hash \<times> store) option" where
  "EnsureRef H n p s =
     (if p < length s then
        (case ref (s ! p) of
           Some r \<Rightarrow> Some (r, s)
         | None \<Rightarrow>
             (case getRef H n s p of
                None \<Rightarrow> None
              | Some r \<Rightarrow> Some (r, s[p := (s ! p)\<lparr>ref := Some r\<rparr>])))
      else None)"

definition Type_Ref ::
  "(token list \<Rightarrow> Hash) \<Rightarrow> nat \<Rightarrow> ptr \<Rightarrow> store \<Rightarrow> (Hash \<times> store) option" where
  "Type_Ref H n t s = EnsureRef H n t s"

text \<open>
  \<open>Equals\<close> takes a \<open>Value\<close>, which may be nil. The model takes nil (\<open>None\<close>) or a type
  object; \<open>None\<close> as the result is a run that panicked or did not end.
\<close>

definition Equals ::
  "(token list \<Rightarrow> Hash) \<Rightarrow> nat \<Rightarrow> ptr \<Rightarrow> ptr option \<Rightarrow> store \<Rightarrow> (bool \<times> store) option" where
  "Equals H n t other s =
     (case other of
        None \<Rightarrow> Some (False, s)
      | Some u \<Rightarrow>
          (case Type_Ref H n t s of
             None \<Rightarrow> None
           | Some (r1, s1) \<Rightarrow>
               (case Type_Ref H n u s1 of
                  None \<Rightarrow> None
                | Some (r2, s2) \<Rightarrow> Some (r1 = r2, s2))))"

text \<open>
  \<open>sort.Sort\<close> with \<open>unionTypes.Less\<close>: \<open>Less\<close> calls \<open>Ref()\<close> on both types it compares.
  Sorting fewer than two elements compares nothing; otherwise every element is compared
  at least once, so the content address of each is computed (and kept in its cell), and
  the elements come out in ascending order of their addresses. \<open>sort.Sort\<close> does not
  promise the order of elements with equal addresses; the model keeps them in the order
  given, as the insertion sort used on short slices does.
\<close>

fun refsOf ::
  "(token list \<Rightarrow> Hash) \<Rightarrow> nat \<Rightarrow> ptr list \<Rightarrow> store \<Rightarrow> (Hash list \<times> store) option" where
  "refsOf H n [] s = Some ([], s)"
| "refsOf H n (t # ts) s =
     (case Type_Ref H n t s of
        None \<Rightarrow> None
      | Some (r, s1) \<Rightarrow>
          (case refsOf H n ts s1 of
             None \<Rightarrow> None
           | Some (rs, s2) \<Rightarrow> Some (r # rs, s2)))"

definition sort_unionTypes ::
  "(token list \<Rightarrow> Hash) \<Rightarrow> nat \<Rightarrow> ptr list \<Rightarrow> store \<Rightarrow> (ptr list \<times> store) option" where
  "sort_unionTypes H n uts s =
     (if length uts < 2 then Some (uts, s)
      else
        (case refsOf H n uts s of
           None \<Rightarrow> None
         | Some (rs, s1) \<Rightarrow> Some (map snd (sort_key fst (zip rs uts)), s1)))"

definition MakeUnionType ::
  "(token list \<Rightarrow> Hash) \<Rightarrow> nat \<Rightarrow> ptr list \<Rightarrow> store \<Rightarrow> (ptr \<times> store) option" where
  "MakeUnionType H n elemType s =
     (case sort_unionTypes H n elemType s of
        None \<Rightarrow> None
      | Some (sorted_elemType, s1) \<Rightarrow>
          Some (buildType (CompoundDesc UnionKind sorted_elemType) s1))"

section \<open>Well-formed stores\<close>

text \<open>
  A pointer of a Go or JS program points at an object that exists. In the store this is
  closedness: every pointer held by one of the first \<open>k\<close> objects is below \<open>k\<close>. The
  \<open>ref\<close> cells are valid when each cell that is filled holds the content address of its
  object (a type object changed after its address was taken would break this).
\<close>

fun ptrsOf :: "TypeDesc \<Rightarrow> ptr list" where
  "ptrsOf (PrimitiveDesc k) = []"
| "ptrsOf (CompoundDesc k elemTypes) = elemTypes"
| "ptrsOf (StructDesc name flds) = map snd flds"

definition closed_upto :: "nat \<Rightarrow> store \<Rightarrow> bool" where
  "closed_upto k s =
     (k \<le> length s \<and> list_all (\<lambda>t. list_all (\<lambda>q. q < k) (ptrsOf (Desc t))) (take k s))"

definition closed_store :: "store \<Rightarrow> bool" where
  "closed_store s = closed_upto (length s) s"

definition refs_valid :: "(token list \<Rightarrow> Hash) \<Rightarrow> nat \<Rightarrow> store \<Rightarrow> bool" where
  "refs_valid H n s =
     list_all (\<lambda>p. case ref (s ! p) of None \<Rightarrow> True | Some r \<Rightarrow> getRef H n s p = Some r)
       [0..<length s]"

text \<open>
  A digest function for the concrete examples: it spells the items of the stream out,
  one after the other.
\<close>

fun demo_token :: "token \<Rightarrow> string" where
  "demo_token (Bytes v) = ''#'' @ replicate (length v) (CHR ''x'') @ ''.''"
| "demo_token (Uint8 v) = replicate v (CHR ''a'') @ ''.''"
| "demo_token (Uint32 v) = replicate v (CHR ''b'') @ ''.''"
| "demo_token (Uint64 v) = replicate v (CHR ''c'') @ ''.''"
| "demo_token (Float64 v) = replicate (unat v) (CHR ''d'') @ ''.''"
| "demo_token (Boolean v) = (if v then ''T'' else ''F'')"
| "demo_token (Str v) = CHR 0x22 # v @ [CHR 0x22]"

definition demo_hash :: "token list \<Rightarrow> Hash" where
  "demo_hash ts = concat (map demo_token ts)"

section \<open>The decoding of types\<close>

text \<open>
  Modelled from the spec: the decoder of types (not among the sources). It mirrors the
  encoder: it reads the kind byte and dispatches on it. A struct type is allocated first,
  without fields, and put in front of the list of enclosing struct types; its fields are
  read with that list and then stored in the allocated object, so a Cycle marker read
  inside the field list resolves to the enclosing type object itself. A primitive kind
  is its singleton type. An unknown kind byte, a stream that ends early, an item of the
  wrong sort, a Cycle marker that points outside the enclosing struct types and a field
  name outside the grammar fail (\<open>None\<close>). The fuel bounds the nesting depth; the
  length of the stream is enough of it.
\<close>

fun readType ::
    "nat \<Rightarrow> ptr list \<Rightarrow> store \<Rightarrow> token list \<Rightarrow> (ptr \<times> store \<times> token list) option"
  and readTypes ::
    "nat \<Rightarrow> ptr list \<Rightarrow> nat \<Rightarrow> store \<Rightarrow> token list \<Rightarrow> (ptr list \<times> store \<times> token list) option"
  and readFields ::
    "nat \<Rightarrow> ptr list \<Rightarrow> nat \<Rightarrow> store \<Rightarrow> token list
       \<Rightarrow> ((string \<times> ptr) list \<times> store \<times> token list) option"
where
  "readType 0 parentStructTypes s a = None"
| "readType (Suc f) parentStructTypes s a =
     (case readKind a of
        None \<Rightarrow> None
      | Some (k, a1) \<Rightarrow>
          if k = ListKind \<or> k = SetKind \<or> k = RefKind then
            (case readTypes f parentStructTypes 1 s a1 of
               None \<Rightarrow> None
             | Some (elemTypes, s1, a2) \<Rightarrow>
                 Some (fst (buildType (CompoundDesc k elemTypes) s1),
                       snd (buildType (CompoundDesc k elemTypes) s1), a2))
          else if k = MapKind then
            (case readTypes f parentStructTypes 2 s a1 of
               None \<Rightarrow> None
             | Some (elemTypes, s1, a2) \<Rightarrow>
                 Some (fst (buildType (CompoundDesc k elemTypes) s1),
                       snd (buildType (CompoundDesc k elemTypes) s1), a2))
          else if k = UnionKind then
            (case readUint32 a1 of
               None \<Rightarrow> None
             | Some (len, a2) \<Rightarrow>
                 (case readTypes f parentStructTypes len s a2 of
                    None \<Rightarrow> None
                  | Some (elemTypes, s1, a3) \<Rightarrow>
                      Some (fst (buildType (CompoundDesc k elemTypes) s1),
                            snd (buildType (CompoundDesc k elemTypes) s1), a3)))
          else if k = StructKind then
            (case readString a1 of
               None \<Rightarrow> None
             | Some (name, a2) \<Rightarrow>
                 (case readUint32 a2 of
                    None \<Rightarrow> None
                  | Some (cnt, a3) \<Rightarrow>
                      (case readFields f (fst (buildType (StructDesc name []) s) # parentStructTypes)
                              cnt (snd (buildType (StructDesc name []) s)) a3 of
                         None \<Rightarrow> None
                       | Some (flds, s1, a4) \<Rightarrow>
                           (case verifyFieldNames flds of
                              Inl e \<Rightarrow> None
                            | Inr u \<Rightarrow>
                                Some (length s,
                                      s1[length s := (s1 ! length s)\<lparr>Desc := StructDesc name flds\<rparr>],
                                      a4)))))
          else if k = CycleKind then
            (case readUint32 a1 of
               None \<Rightarrow> None
             | Some (i, a2) \<Rightarrow>
                 if i < length parentStructTypes then Some (parentStructTypes ! i, s, a2)
                 else None)
          else
            (case MakePrimitiveType k of
               Inl e \<Rightarrow> None
             | Inr p \<Rightarrow> Some (p, s, a1)))"
| "readTypes f parentStructTypes 0 s a = Some ([], s, a)"
| "readTypes f parentStructTypes (Suc len) s a =
     (case readType f parentStructTypes s a of
        None \<Rightarrow> None
      | Some (t, s1, a1) \<Rightarrow>
          (case readTypes f parentStructTypes len s1 a1 of
             None \<Rightarrow> None
           | Some (ts, s2, a2) \<Rightarrow> Some (t # ts, s2, a2)))"
| "readFields f parentStructTypes 0 s a = Some ([], s, a)"
| "readFields f parentStructTypes (Suc cnt) s a =
     (case readString a of
        None \<Rightarrow> None
      | Some (fieldName, a1) \<Rightarrow>
          (case readType f parentStructTypes s a1 of
             None \<Rightarrow> None
           | Some (t, s1, a2) \<Rightarrow>
               (case readFields f parentStructTypes cnt s1 a2 of
                  None \<Rightarrow> None
                | Some (flds, s2, a3) \<Rightarrow> Some ((fieldName, t) # flds, s2, a3))))"


section \<open>Well-formed type objects and the stores of the decoder\<close>

text \<open>
  What the constructors guarantee of every type object: a Map type has two element
  types, a List, Set or Ref type has one, the field names of a struct type are inside the
  grammar. The initial objects are the primitive types.
\<close>

fun desc_ok :: "TypeDesc \<Rightarrow> bool" where
  "desc_ok (PrimitiveDesc k) = True"
| "desc_ok (CompoundDesc k elemTypes) =
     (if k = MapKind then length elemTypes = 2
      else if k = ListKind \<or> k = SetKind \<or> k = RefKind then length elemTypes = 1
      else True)"
| "desc_ok (StructDesc name flds) = (verifyFieldNames flds = Inr ())"

definition types_ok :: "store \<Rightarrow> bool" where
  "types_ok s = list_all (\<lambda>t. desc_ok (Desc t)) s"

definition prims_ok :: "store \<Rightarrow> bool" where
  "prims_ok s = (length init_store \<le> length s
     \<and> map Desc (take (length init_store) s) = map Desc init_store)"

text \<open>
  A store \<open>s3\<close> agrees with \<open>s1\<close> from \<open>lo\<close> when it has the objects of \<open>s1\<close> from
  address \<open>lo\<close> on, with the same descriptions; the struct types under construction are
  struct types in it.
\<close>

definition agrees :: "nat \<Rightarrow> store \<Rightarrow> store \<Rightarrow> bool" where
  "agrees lo s1 s3 =
     (length s1 \<le> length s3 \<and> (\<forall>q. lo \<le> q \<and> q < length s1 \<longrightarrow> Desc (s3 ! q) = Desc (s1 ! q)))"

definition pending :: "store \<Rightarrow> ptr list \<Rightarrow> bool" where
  "pending s3 ps = (\<forall>q \<in> set ps. q < length s3 \<and> (\<exists>name flds. Desc (s3 ! q) = StructDesc name flds))"

definition rebuilt :: "store \<Rightarrow> store \<Rightarrow> ptr list \<Rightarrow> (store \<Rightarrow> bool) \<Rightarrow> bool" where
  "rebuilt s0 s1 ps W =
     (length s0 \<le> length s1 \<and> take (length s0) s1 = s0
      \<and> (\<forall>q. length s0 \<le> q \<and> q < length s1 \<longrightarrow> ref (s1 ! q) = None)
      \<and> (\<forall>s3. agrees (length s0) s1 s3 \<longrightarrow> prims_ok s3 \<longrightarrow> pending s3 ps \<longrightarrow> W s3))"

text \<open>
  The shape of a type object that the codec of values dispatches on: its kind and, of a
  struct type, the field names in the canonical order.
\<close>

definition typeShape :: "store \<Rightarrow> ptr \<Rightarrow> NomsKind \<times> string list option" where
  "typeShape s p =
     (case Desc (s ! p) of
        StructDesc name flds \<Rightarrow> (StructKind, Some (map fst (IterFields flds)))
      | PrimitiveDesc k \<Rightarrow> (k, None)
      | CompoundDesc k elemTypes \<Rightarrow> (k, None))"

text \<open>
  Reading back what the encoder wrote: the statement proved by induction on the
  encoder's fuel, for the encoder inside the struct types \<open>ps\<close> and the decoder inside
  as many struct types \<open>ps'\<close> under construction. The type object read has the
  encoding and, outside a Cycle marker, the shape of the one written.
\<close>

definition reads_type :: "nat \<Rightarrow> store \<Rightarrow> bool" where
  "reads_type n s =
     (\<forall>ps p e f s0 ps' rest.
        writeType n s ps p = Some e \<longrightarrow> length e \<le> f \<longrightarrow> prims_ok s0 \<longrightarrow>
        length ps' = length ps \<longrightarrow> distinct ps' \<longrightarrow> (\<forall>q \<in> set ps'. q < length s0) \<longrightarrow>
        (\<exists>p' s1. readType f ps' s0 (e @ rest) = Some (p', s1, rest)
           \<and> rebuilt s0 s1 ps' (\<lambda>s3. writeType n s3 ps' p' = Some e
                \<and> (p \<notin> set ps \<longrightarrow> typeShape s3 p' = typeShape s p))))"

section \<open>Recursive struct types\<close>

text \<open>
  The walk of the encoder ends on a type object when the graph below it, cut at every
  struct type met inside itself, is finite: \<open>encodable s ps p\<close> for the encoder at \<open>p\<close>
  inside the struct types \<open>ps\<close>.
\<close>

inductive encodable :: "store \<Rightarrow> ptr list \<Rightarrow> ptr \<Rightarrow> bool" for s :: store where
  primitive:
    "p < length s \<Longrightarrow> Desc (s ! p) = PrimitiveDesc k \<Longrightarrow> isPrimitiveKind k \<Longrightarrow> encodable s ps p"
| compound:
    "p < length s \<Longrightarrow> Desc (s ! p) = CompoundDesc k elemTypes \<Longrightarrow>
     k = ListKind \<or> k = MapKind \<or> k = RefKind \<or> k = SetKind \<or> k = UnionKind \<Longrightarrow>
     \<forall>t \<in> set elemTypes. encodable s ps t \<Longrightarrow> encodable s ps p"
| cycle:
    "p < length s \<Longrightarrow> Desc (s ! p) = StructDesc name flds \<Longrightarrow> p \<in> set ps \<Longrightarrow> encodable s ps p"
| struct:
    "p < length s \<Longrightarrow> Desc (s ! p) = StructDesc name flds \<Longrightarrow> p \<notin> set ps \<Longrightarrow>
     \<forall>fl \<in> set flds. encodable s (p # ps) (snd fl) \<Longrightarrow> encodable s ps p"

text \<open>
  What the constructors guarantee of the shape of the graph. \<open>buildType\<close> makes a new
  object, and a List, Set, Map, Ref or Union type is built from element types that exist
  already: a compound type points at older objects only, and its element types are never
  assigned afterwards. A struct type is different: a field may be assigned after the
  construction, so a field of a struct type points anywhere in the store, at the struct
  type itself or at a younger object. Every cycle of the graph therefore passes through
  a field of a struct type. A primitive type has one of the primitive kinds.
\<close>

fun desc_downward :: "nat \<Rightarrow> ptr \<Rightarrow> TypeDesc \<Rightarrow> bool" where
  "desc_downward len q (PrimitiveDesc k) = isPrimitiveKind k"
| "desc_downward len q (CompoundDesc k elemTypes) =
     ((k = ListKind \<or> k = MapKind \<or> k = RefKind \<or> k = SetKind \<or> k = UnionKind)
      \<and> list_all (\<lambda>t. t < q) elemTypes)"
| "desc_downward len q (StructDesc name flds) = list_all (\<lambda>fl. snd fl < len) flds"

definition downward :: "store \<Rightarrow> bool" where
  "downward s = list_all (\<lambda>q. desc_downward (length s) q (Desc (s ! q))) [0..<length s]"

text \<open>
  The assignment to a field of a struct type after its construction
  (\<open>structType.desc.fields['cs'] = listType\<close>, \<open>recType.Desc.(StructDesc).Fields["self"] = recType\<close>):
  an entry with the name is replaced where it stands, a new name is added last.
\<close>

fun assignField :: "string \<Rightarrow> ptr \<Rightarrow> (string \<times> ptr) list \<Rightarrow> (string \<times> ptr) list" where
  "assignField name t [] = [(name, t)]"
| "assignField name t ((name', t') # flds) =
     (if name = name' then (name, t) # flds else (name', t') # assignField name t flds)"

definition setField :: "ptr \<Rightarrow> string \<Rightarrow> ptr \<Rightarrow> store \<Rightarrow> store" where
  "setField p fieldName t s =
     (case Desc (s ! p) of
        StructDesc name flds \<Rightarrow> s[p := (s ! p)\<lparr>Desc := StructDesc name (assignField fieldName t flds)\<rparr>]
      | _ \<Rightarrow> s)"


definition a6Type :: "ptr \<times> store" where
  "a6Type =
     (let (structType, s) =
            projr (MakeStructType ''A6'' [(''v'', NumberType), (''cs'', NumberType)] init_store);
          (listType, s1) = MakeListType structType s
      in (structType, setField structType ''cs'' listType s1))"

section \<open>Example types\<close>

text \<open>
  The struct type of \<open>TestTypes\<close>, built twice and once more under another name, and
  union types of primitive types, built in the initial store with the example digest.
\<close>

definition mahFields :: "(string \<times> ptr) list" where
  "mahFields = [(''Field1'', StringType), (''Field2'', BoolType)]"

definition mahType :: "ptr \<times> store" where
  "mahType = projr (MakeStructType ''MahStruct'' mahFields init_store)"

definition mahType2 :: "ptr \<times> store" where
  "mahType2 = projr (MakeStructType ''MahStruct'' mahFields (snd mahType))"

definition yourType :: "ptr \<times> store" where
  "yourType = projr (MakeStructType ''YourStruct'' mahFields (snd mahType))"

definition boolBoolUnion :: "ptr \<times> store" where
  "boolBoolUnion = the (MakeUnionType demo_hash 2 [BoolType, BoolType] init_store)"

definition boolUnion :: "ptr \<times> store" where
  "boolUnion = the (MakeUnionType demo_hash 2 [BoolType] (snd boolBoolUnion))"

definition unionA :: "ptr \<times> store" where
  "unionA = the (MakeUnionType demo_hash 2 [StringType, BoolType, NumberType] init_store)"

definition unionB :: "ptr \<times> store" where
  "unionB = the (MakeUnionType demo_hash 2 [NumberType, StringType, BoolType] (snd unionA))"

section \<open>The encoding of values\<close>

text \<open>
  Modelled from the spec: the values (their classes are not among the sources; the test
  suite builds them). A Bool, a Number (the bit pattern of its IEEE-754 double) and a
  String are themselves; a Blob with a leaf sequence is its bytes. A List or a Set with a
  leaf sequence is its type and its elements, a Map with a leaf sequence its type and
  its entries. A Blob, List, Set or Map with a meta sequence is its type and its meta
  tuples: the Ref value of the child chunk, the ordering key, the number of leaves below
  (the child itself is not part of the value: it is fetched by its address on demand).
  A struct is its type and its data, the field values by name in the order they were
  given in (\<open>newStruct('S', {x: 42, b: true})\<close>). A Ref is its type (a Ref type), the
  content address of its target and the height. A type is a value too.
\<close>

datatype Value =
    BoolV bool
  | NumberV float64
  | StringV string
  | BlobV "8 word list"
  | LeafV ptr "Value list"
  | MapLeafV ptr "(Value \<times> Value) list"
  | MetaV ptr "(Value \<times> Value \<times> nat) list"
  | StructV ptr "(string \<times> Value) list"
  | RefV ptr Hash nat
  | TypeV ptr

text \<open>
  Modelled from the spec: the encoder of values (not among the sources; the encodings
  the test suite expects are). Every value is led by the encoding of its type; a
  primitive type is its kind byte. Then come: of a Bool, Number or String the payload; of
  a Blob, List, Set or Map the flag that tells a meta sequence from a leaf sequence and,
  for a leaf, the bytes, or the number of elements and each element, or the number of
  entries and each key and value; for a meta sequence the number of tuples and of each
  tuple the Ref value, the ordering key and the number of leaves (64 bits); of a struct
  each field value, in the canonical order of the fields of its type; of a Ref the
  address of the target and the height (64 bits); of a type its encoding.

  The spec's table has the elements and field values written without their type where
  the type is known from the context; every encoding the test suite expects writes them
  as full values, led by their type (\<open>uint8(BoolKind), true, uint8(NumberKind), float64(42)\<close>
  are the two field values of test 'struct'), and the model follows the tests.

  A value whose type does not fit it (a List whose type is not a List or Set type, a
  struct whose type lacks a field value in the data) has no encoding (\<open>None\<close>), as has
  any value when the fuel does not cover the nesting depth of the value and its types.
\<close>

fun writeMany :: "('a \<Rightarrow> token list option) \<Rightarrow> 'a list \<Rightarrow> token list option" where
  "writeMany w [] = Some []"
| "writeMany w (x # xs) =
     (case w x of
        None \<Rightarrow> None
      | Some a \<Rightarrow> map_option (\<lambda>b. a @ b) (writeMany w xs))"

definition writeEntry ::
  "('a \<Rightarrow> token list option) \<Rightarrow> 'a \<times> 'a \<Rightarrow> token list option" where
  "writeEntry w kv =
     (case w (fst kv) of
        None \<Rightarrow> None
      | Some a \<Rightarrow> map_option (\<lambda>b. a @ b) (w (snd kv)))"

definition writeMetaTuple ::
  "('a \<Rightarrow> token list option) \<Rightarrow> 'a \<times> 'a \<times> nat \<Rightarrow> token list option" where
  "writeMetaTuple w mt =
     (case w (fst mt) of
        None \<Rightarrow> None
      | Some a \<Rightarrow> map_option (\<lambda>b. a @ b @ [Uint64 (snd (snd mt))]) (w (fst (snd mt))))"

definition writeField ::
  "('a \<Rightarrow> token list option) \<Rightarrow> (string \<times> 'a) list \<Rightarrow> string \<Rightarrow> token list option" where
  "writeField w data name = (case map_of data name of None \<Rightarrow> None | Some v \<Rightarrow> w v)"

fun writeValue :: "nat \<Rightarrow> store \<Rightarrow> Value \<Rightarrow> token list option" where
  "writeValue 0 s v = None"
| "writeValue (Suc n) s (BoolV b) = Some (writeKind BoolKind @ [Boolean b])"
| "writeValue (Suc n) s (NumberV x) = Some (writeKind NumberKind @ [Float64 x])"
| "writeValue (Suc n) s (StringV x) = Some (writeKind StringKind @ [Str x])"
| "writeValue (Suc n) s (BlobV bytes) = Some (writeKind BlobKind @ [Boolean False, Bytes bytes])"
| "writeValue (Suc n) s (LeafV t vs) =
     (case writeType n s [] t of
        None \<Rightarrow> None
      | Some a \<Rightarrow>
          if Kind (s ! t) = ListKind \<or> Kind (s ! t) = SetKind then
            map_option (\<lambda>b. a @ [Boolean False, Uint32 (length vs)] @ b)
              (writeMany (writeValue n s) vs)
          else None)"
| "writeValue (Suc n) s (MapLeafV t kvs) =
     (case writeType n s [] t of
        None \<Rightarrow> None
      | Some a \<Rightarrow>
          if Kind (s ! t) = MapKind then
            map_option (\<lambda>b. a @ [Boolean False, Uint32 (length kvs)] @ b)
              (writeMany (writeEntry (writeValue n s)) kvs)
          else None)"
| "writeValue (Suc n) s (MetaV t mts) =
     (case writeType n s [] t of
        None \<Rightarrow> None
      | Some a \<Rightarrow>
          if Kind (s ! t) = BlobKind \<or> Kind (s ! t) = ListKind \<or> Kind (s ! t) = SetKind
             \<or> Kind (s ! t) = MapKind then
            map_option (\<lambda>b. a @ [Boolean True, Uint32 (length mts)] @ b)
              (writeMany (writeMetaTuple (writeValue n s)) mts)
          else None)"
| "writeValue (Suc n) s (StructV t data) =
     (case writeType n s [] t of
        None \<Rightarrow> None
      | Some a \<Rightarrow>
          (case Desc (s ! t) of
             StructDesc name flds \<Rightarrow>
               map_option (\<lambda>b. a @ b)
                 (writeMany (writeField (writeValue n s) data) (map fst (IterFields flds)))
           | _ \<Rightarrow> None))"
| "writeValue (Suc n) s (RefV t h ht) =
     (case writeType n s [] t of
        None \<Rightarrow> None
      | Some a \<Rightarrow>
          if Kind (s ! t) = RefKind then Some (a @ writeHash h @ [Uint64 ht]) else None)"
| "writeValue (Suc n) s (TypeV t) =
     map_option (\<lambda>a. writeKind TypeKind @ a) (writeType n s [] t)"

section \<open>The decoding of values\<close>

text \<open>
  Modelled from the spec: the decoder of values (not among the sources). It reads the
  type, dispatches on its kind and mirrors the encoder. The children of a meta sequence
  stay unresolved: a meta tuple is read as the Ref value, the ordering key and the number
  of leaves. The field values of a struct are read in the canonical order of the fields
  of the type just read and stored under the field names. A stream that ends early, an
  item of the wrong sort and a type of the Cycle, Union or Value kind in front of a
  value fail (\<open>None\<close>). The fuel bounds the nesting depth; the length of the stream
  and one more is enough of it.
\<close>

fun readMany ::
  "(store \<Rightarrow> token list \<Rightarrow> ('a \<times> store \<times> token list) option)
     \<Rightarrow> nat \<Rightarrow> store \<Rightarrow> token list \<Rightarrow> ('a list \<times> store \<times> token list) option" where
  "readMany rd 0 s a = Some ([], s, a)"
| "readMany rd (Suc len) s a =
     (case rd s a of
        None \<Rightarrow> None
      | Some (x, s1, a1) \<Rightarrow>
          (case readMany rd len s1 a1 of
             None \<Rightarrow> None
           | Some (xs, s2, a2) \<Rightarrow> Some (x # xs, s2, a2)))"

definition readEntry ::
  "(store \<Rightarrow> token list \<Rightarrow> ('a \<times> store \<times> token list) option)
     \<Rightarrow> store \<Rightarrow> token list \<Rightarrow> (('a \<times> 'a) \<times> store \<times> token list) option" where
  "readEntry rd s a =
     (case rd s a of
        None \<Rightarrow> None
      | Some (k, s1, a1) \<Rightarrow>
          (case rd s1 a1 of
             None \<Rightarrow> None
           | Some (v, s2, a2) \<Rightarrow> Some ((k, v), s2, a2)))"

definition readMetaTuple ::
  "(store \<Rightarrow> token list \<Rightarrow> ('a \<times> store \<times> token list) option)
     \<Rightarrow> store \<Rightarrow> token list \<Rightarrow> (('a \<times> 'a \<times> nat) \<times> store \<times> token list) option" where
  "readMetaTuple rd s a =
     (case rd s a of
        None \<Rightarrow> None
      | Some (r, s1, a1) \<Rightarrow>
          (case rd s1 a1 of
             None \<Rightarrow> None
           | Some (v, s2, a2) \<Rightarrow>
               (case readUint64 a2 of
                  None \<Rightarrow> None
                | Some (numLeaves, a3) \<Rightarrow> Some ((r, v, numLeaves), s2, a3))))"

definition readMetaSequence ::
  "(store \<Rightarrow> token list \<Rightarrow> (Value \<times> store \<times> token list) option)
     \<Rightarrow> ptr \<Rightarrow> store \<Rightarrow> token list \<Rightarrow> (Value \<times> store \<times> token list) option" where
  "readMetaSequence rd t s a =
     (case readUint32 a of
        None \<Rightarrow> None
      | Some (len, a1) \<Rightarrow>
          (case readMany (readMetaTuple rd) len s a1 of
             None \<Rightarrow> None
           | Some (mts, s1, a2) \<Rightarrow> Some (MetaV t mts, s1, a2)))"

fun readValue :: "nat \<Rightarrow> store \<Rightarrow> token list \<Rightarrow> (Value \<times> store \<times> token list) option" where
  "readValue 0 s a = None"
| "readValue (Suc f) s a =
     (case readType f [] s a of
        None \<Rightarrow> None
      | Some (t, s1, a1) \<Rightarrow>
          (case Kind (s1 ! t) of
             BoolKind \<Rightarrow>
               (case readBool a1 of None \<Rightarrow> None | Some (b, a2) \<Rightarrow> Some (BoolV b, s1, a2))
           | NumberKind \<Rightarrow>
               (case readFloat64 a1 of None \<Rightarrow> None | Some (x, a2) \<Rightarrow> Some (NumberV x, s1, a2))
           | StringKind \<Rightarrow>
               (case readString a1 of None \<Rightarrow> None | Some (x, a2) \<Rightarrow> Some (StringV x, s1, a2))
           | BlobKind \<Rightarrow>
               (case readBool a1 of
                  None \<Rightarrow> None
                | Some (isMeta, a2) \<Rightarrow>
                    if isMeta then readMetaSequence (readValue f) t s1 a2
                    else
                      (case readBytes a2 of
                         None \<Rightarrow> None
                       | Some (bytes, a3) \<Rightarrow> Some (BlobV bytes, s1, a3)))
           | ListKind \<Rightarrow>
               (case readBool a1 of
                  None \<Rightarrow> None
                | Some (isMeta, a2) \<Rightarrow>
                    if isMeta then readMetaSequence (readValue f) t s1 a2
                    else
                      (case readUint32 a2 of
                         None \<Rightarrow> None
                       | Some (len, a3) \<Rightarrow>
                           (case readMany (readValue f) len s1 a3 of
                              None \<Rightarrow> None
                            | Some (vs, s2, a4) \<Rightarrow> Some (LeafV t vs, s2, a4))))
           | SetKind \<Rightarrow>
               (case readBool a1 of
                  None \<Rightarrow> None
                | Some (isMeta, a2) \<Rightarrow>
                    if isMeta then readMetaSequence (readValue f) t s1 a2
                    else
                      (case readUint32 a2 of
                         None \<Rightarrow> None
                       | Some (len, a3) \<Rightarrow>
                           (case readMany (readValue f) len s1 a3 of
                              None \<Rightarrow> None
                            | Some (vs, s2, a4) \<Rightarrow> Some (LeafV t vs, s2, a4))))
           | MapKind \<Rightarrow>
               (case readBool a1 of
                  None \<Rightarrow> None
                | Some (isMeta, a2) \<Rightarrow>
                    if isMeta then readMetaSequence (readValue f) t s1 a2
                    else
                      (case readUint32 a2 of
                         None \<Rightarrow> None
                       | Some (len, a3) \<Rightarrow>
                           (case readMany (readEntry (readValue f)) len s1 a3 of
                              None \<Rightarrow> None
                            | Some (kvs, s2, a4) \<Rightarrow> Some (MapLeafV t kvs, s2, a4))))
           | RefKind \<Rightarrow>
               (case readHash a1 of
                  None \<Rightarrow> None
                | Some (h, a2) \<Rightarrow>
                    (case readUint64 a2 of
                       None \<Rightarrow> None
                     | Some (ht, a3) \<Rightarrow> Some (RefV t h ht, s1, a3)))
           | StructKind \<Rightarrow>
               (case Desc (s1 ! t) of
                  StructDesc name flds \<Rightarrow>
                    (case readMany (readValue f) (length flds) s1 a1 of
                       None \<Rightarrow> None
                     | Some (vs, s2, a2) \<Rightarrow>
                         Some (StructV t (zip (map fst (IterFields flds)) vs), s2, a2))
                | _ \<Rightarrow> None)
           | TypeKind \<Rightarrow>
               (case readType f [] s1 a1 of
                  None \<Rightarrow> None
                | Some (t', s2, a2) \<Rightarrow> Some (TypeV t', s2, a2))
           | CycleKind \<Rightarrow> None
           | UnionKind \<Rightarrow> None
           | ValueKind \<Rightarrow> None))"

definition decodeValue :: "store \<Rightarrow> token list \<Rightarrow> (Value \<times> store) option" where
  "decodeValue s a =
     (case readValue (Suc (length a)) s a of
        Some (v, s1, []) \<Rightarrow> Some (v, s1)
      | _ \<Rightarrow> None)"






text \<open>
  The values that can be constructed: the type of a List, Set, Map, Ref or struct value,
  or of a meta sequence, is a type object of the fitting kind, the data of a struct has a
  value for every field of its type, and the values inside a value can be constructed.
\<close>

fun valueOk :: "store \<Rightarrow> Value \<Rightarrow> bool" where
  "valueOk s (BoolV b) = True"
| "valueOk s (NumberV x) = True"
| "valueOk s (StringV x) = True"
| "valueOk s (BlobV bytes) = True"
| "valueOk s (LeafV t vs) =
     (t < length s \<and> (Kind (s ! t) = ListKind \<or> Kind (s ! t) = SetKind)
      \<and> list_all (valueOk s) vs)"
| "valueOk s (MapLeafV t kvs) =
     (t < length s \<and> Kind (s ! t) = MapKind
      \<and> list_all (\<lambda>(k, v). valueOk s k \<and> valueOk s v) kvs)"
| "valueOk s (MetaV t mts) =
     (t < length s
      \<and> (Kind (s ! t) = BlobKind \<or> Kind (s ! t) = ListKind \<or> Kind (s ! t) = SetKind
           \<or> Kind (s ! t) = MapKind)
      \<and> list_all (\<lambda>(r, k, numLeaves). valueOk s r \<and> valueOk s k) mts)"
| "valueOk s (StructV t data) =
     (t < length s
      \<and> (case Desc (s ! t) of
            StructDesc name flds \<Rightarrow> list_all (\<lambda>fieldName. map_of data fieldName \<noteq> None) (map fst flds)
          | _ \<Rightarrow> False)
      \<and> list_all (\<lambda>(fieldName, v). valueOk s v) data)"
| "valueOk s (RefV t h ht) = (t < length s \<and> Kind (s ! t) = RefKind)"
| "valueOk s (TypeV t) = (t < length s)"

text \<open>
  The field names of a struct type differ from one another: the fields are a Go map, a
  JS object.
\<close>

definition fields_unique :: "store \<Rightarrow> bool" where
  "fields_unique s =
     list_all (\<lambda>t. case Desc t of StructDesc name flds \<Rightarrow> distinct (map fst flds) | _ \<Rightarrow> True) s"

text \<open>
  Reading back what an encoder \<open>w\<close> wrote, with a reader \<open>rd\<close> and the encoder \<open>w'\<close>
  of what was read, in every store that extends the reader's: the statement proved by
  induction on the encoder's fuel, for streams of at most \<open>m\<close> items.
\<close>

definition reads_with ::
  "('a \<Rightarrow> token list option) \<Rightarrow> (store \<Rightarrow> 'b \<Rightarrow> token list option)
     \<Rightarrow> (store \<Rightarrow> token list \<Rightarrow> ('b \<times> store \<times> token list) option) \<Rightarrow> nat \<Rightarrow> bool" where
  "reads_with w w' rd m =
     (\<forall>x e s0 rest. w x = Some e \<longrightarrow> length e \<le> m \<longrightarrow> prims_ok s0 \<longrightarrow>
        (\<exists>x' s1. rd s0 (e @ rest) = Some (x', s1, rest)
           \<and> rebuilt s0 s1 [] (\<lambda>s3. w' s3 x' = Some e)))"

section \<open>Example values\<close>

text \<open>
  Values of the test suite: \<open>newStruct('S', {x: 42, b: true})\<close>, a Blob with a meta
  sequence of three tuples, \<open>new Map([[new Map([['a', 0]]), new Set([true])]])\<close>, and
  \<open>newStructWithType(A6, {v: 42, cs: new List()})\<close> of the recursive struct type.
\<close>

definition sStruct :: "Value \<times> store" where
  "sStruct =
     (let (t, s) = projr (MakeStructType ''S'' [(''x'', NumberType), (''b'', BoolType)] init_store)
      in (StructV t [(''x'', NumberV 0x4045000000000000), (''b'', BoolV True)], s))"

definition compoundBlob :: "Value \<times> store" where
  "compoundBlob =
     (let (refOfBlobType, s) = MakeRefType BlobType init_store
      in (MetaV BlobType
            [(RefV refOfBlobType ''sha1-0000000000000000000000000000000000000001'' 11,
              NumberV 0x4034000000000000, 20),
             (RefV refOfBlobType ''sha1-0000000000000000000000000000000000000002'' 22,
              NumberV 0x4044000000000000, 40),
             (RefV refOfBlobType ''sha1-0000000000000000000000000000000000000003'' 33,
              NumberV 0x404e000000000000, 60)], s))"

definition mapOfMap :: "Value \<times> store" where
  "mapOfMap =
     (let (mapType, s) = MakeMapType StringType NumberType init_store;
          (setType, s1) = MakeSetType BoolType s;
          (mapOfMapType, s2) = MakeMapType mapType setType s1
      in (MapLeafV mapOfMapType
            [(MapLeafV mapType [(StringV ''a'', NumberV 0)], LeafV setType [BoolV True])], s2))"

definition recValue :: "Value \<times> store" where
  "recValue =
     (let (u, s) = buildType (CompoundDesc UnionKind []) (snd a6Type);
          (lu, s1) = MakeListType u s
      in (StructV (fst a6Type) [(''v'', NumberV 0x4045000000000000), (''cs'', LeafV lu [])], s1))"



















section \<open>Properties of the type system\<close>

lemma dropWhile_Nil_iff: "dropWhile P xs = [] \<longleftrightarrow> (\<forall>x \<in> set xs. P x)"
  by (induction xs) auto

lemma isAlpha_iff:
  "isAlpha c \<longleftrightarrow> c \<in> set (''abcdefghijklmnopqrstuvwxyz'' @ ''ABCDEFGHIJKLMNOPQRSTUVWXYZ'')"
proof (cases c)
  case (Char b0 b1 b2 b3 b4 b5 b6 b7)
  show ?thesis unfolding Char isAlpha_def Let_def
    by (cases b0; cases b1; cases b2; cases b3; cases b4; cases b5; cases b6; cases b7) simp_all
qed

lemma isWord_iff:
  "isWord c \<longleftrightarrow> c \<in> set (''abcdefghijklmnopqrstuvwxyz'' @ ''ABCDEFGHIJKLMNOPQRSTUVWXYZ''
                            @ ''0123456789'' @ ''_'')"
proof (cases c)
  case (Char b0 b1 b2 b3 b4 b5 b6 b7)
  show ?thesis unfolding Char isWord_def Let_def
    by (cases b0; cases b1; cases b2; cases b3; cases b4; cases b5; cases b6; cases b7) simp_all
qed

lemma fieldNameRe_grammar: "fieldNameRe_MatchString name \<longleftrightarrow> name \<in> field_name_grammar"
proof (cases name)
  case Nil
  then show ?thesis by (simp add: fieldNameRe_MatchString_def field_name_grammar_def)
next
  case (Cons c cs)
  have "fieldNameRe_MatchString (c # cs) \<longleftrightarrow> isAlpha c \<and> (\<forall>x \<in> set cs. isWord x)"
    by (simp add: fieldNameRe_MatchString_def dropWhile_Nil_iff)
  also have "\<dots> \<longleftrightarrow> c # cs \<in> field_name_grammar"
    unfolding field_name_grammar_def isAlpha_iff isWord_iff by blast
  finally show ?thesis using Cons by simp
qed

lemma verifyFieldNames_Inr:
  "verifyFieldNames flds = Inr () \<longleftrightarrow> (\<forall>fn \<in> set (map fst flds). fieldNameRe_MatchString fn)"
  by (induction flds rule: verifyFieldNames.induct)
     (auto simp: verifyFieldName_def split: sum.splits)

lemma verifyFieldNames_Inl:
  "verifyFieldNames flds = Inl e \<Longrightarrow> e = InvalidFieldName"
  by (induction flds rule: verifyFieldNames.induct)
     (auto simp: verifyFieldName_def split: sum.splits if_splits)

text \<open>
  C6. For every type \<open>t\<close>, \<open>IsOrdered\<close> is true exactly when the kind of \<open>t\<close> is Number,
  String or Ref; for Bool, Blob, Value, Type, List, Set, Map and every other kind it is
  false.
\<close>

theorem IsOrdered_exactly_Number_String_Ref:
  "IsOrdered t = (Kind t \<in> {NumberKind, StringKind, RefKind})
   \<and> (\<not> IsOrdered t) = (Kind t \<in> {BoolKind, BlobKind, ValueKind, TypeKind, ListKind, SetKind,
                                     MapKind, StructKind, CycleKind, UnionKind})"
  by (cases "desc_Kind (Desc t)") (simp_all add: IsOrdered_def Kind_def)

theorem IsOrdered_exactly_Number_String_Ref_witness:
  "\<not> IsOrdered (init_store ! BoolType)
   \<and> IsOrdered (init_store ! NumberType)
   \<and> IsOrdered (init_store ! StringType)
   \<and> \<not> IsOrdered (init_store ! BlobType)
   \<and> \<not> IsOrdered (init_store ! ValueType)
   \<and> \<not> IsOrdered (snd (MakeListType StringType init_store) ! fst (MakeListType StringType init_store))
   \<and> \<not> IsOrdered (snd (MakeSetType StringType init_store) ! fst (MakeSetType StringType init_store))
   \<and> \<not> IsOrdered (snd (MakeMapType StringType ValueType init_store)
                       ! fst (MakeMapType StringType ValueType init_store))
   \<and> IsOrdered (snd (MakeRefType StringType init_store) ! fst (MakeRefType StringType init_store))"
  using IsOrdered_exactly_Number_String_Ref [of "init_store ! BoolType"]
    IsOrdered_exactly_Number_String_Ref [of "init_store ! NumberType"]
    IsOrdered_exactly_Number_String_Ref [of "init_store ! StringType"]
    IsOrdered_exactly_Number_String_Ref [of "init_store ! BlobType"]
    IsOrdered_exactly_Number_String_Ref [of "init_store ! ValueType"]
    IsOrdered_exactly_Number_String_Ref
      [of "snd (MakeListType StringType init_store) ! fst (MakeListType StringType init_store)"]
    IsOrdered_exactly_Number_String_Ref
      [of "snd (MakeSetType StringType init_store) ! fst (MakeSetType StringType init_store)"]
    IsOrdered_exactly_Number_String_Ref
      [of "snd (MakeMapType StringType ValueType init_store)
             ! fst (MakeMapType StringType ValueType init_store)"]
    IsOrdered_exactly_Number_String_Ref
      [of "snd (MakeRefType StringType init_store) ! fst (MakeRefType StringType init_store)"]
  by (simp add: Kind_def init_store_def makePrimitiveType_def buildType_def MakeListType_def
      MakeSetType_def MakeMapType_def MakeRefType_def BoolType_def NumberType_def StringType_def
      BlobType_def ValueType_def)

text \<open>
  C10. For every type object \<open>t\<close>, whatever its description (primitive, compound,
  struct, union, or one that points back at itself), \<open>Chunks\<close> returns the empty list: the
  component types are child values (every element type of a compound description, every
  field type of a struct description), not chunk references.
\<close>

theorem Type_Chunks_empty:
  "Chunks t = []
   \<and> set (ChildValues t) =
       (case Desc t of
          PrimitiveDesc k \<Rightarrow> {}
        | CompoundDesc k elemTypes \<Rightarrow> set elemTypes
        | StructDesc name flds \<Rightarrow> snd ` set flds)
   \<and> length (ChildValues t) =
       (case Desc t of
          PrimitiveDesc k \<Rightarrow> 0
        | CompoundDesc k elemTypes \<Rightarrow> length elemTypes
        | StructDesc name flds \<Rightarrow> length flds)"
  by (cases "Desc t") (simp_all add: Chunks_def ChildValues_def IterFields_def)

text \<open>
  C5. \<open>MakeStructType\<close> fails with InvalidFieldName exactly when some supplied field name
  is outside the grammar \<^verbatim>\<open>^[A-Za-z][A-Za-z0-9_]*$\<close>, and returns a type exactly when all
  of them are inside it.
\<close>

theorem MakeStructType_field_names:
  "(MakeStructType name flds s = Inl InvalidFieldName)
     = (\<exists>fn \<in> fst ` set flds. fn \<notin> field_name_grammar)
   \<and> (MakeStructType name flds s = Inr (buildType (StructDesc name flds) s))
     = (fst ` set flds \<subseteq> field_name_grammar)
   \<and> (\<exists>r. MakeStructType name flds s = Inr r) = (fst ` set flds \<subseteq> field_name_grammar)"
proof -
  have ok: "verifyFieldNames flds = Inr () \<longleftrightarrow> fst ` set flds \<subseteq> field_name_grammar"
    by (auto simp: verifyFieldNames_Inr fieldNameRe_grammar)
  show ?thesis
  proof (cases "verifyFieldNames flds")
    case (Inl e)
    then have "e = InvalidFieldName" by (rule verifyFieldNames_Inl)
    with Inl ok show ?thesis by (auto simp: MakeStructType_def)
  next
    case (Inr u)
    with ok show ?thesis by (auto simp: MakeStructType_def)
  qed
qed

theorem MakeStructType_field_names_witness:
  "MakeStructType ''S'' [('''', StringType)] init_store = Inl InvalidFieldName
   \<and> MakeStructType ''S'' [('' '', StringType)] init_store = Inl InvalidFieldName
   \<and> MakeStructType ''S'' [('' a'', StringType)] init_store = Inl InvalidFieldName
   \<and> MakeStructType ''S'' [(''a '', StringType)] init_store = Inl InvalidFieldName
   \<and> MakeStructType ''S'' [(''0'', StringType)] init_store = Inl InvalidFieldName
   \<and> MakeStructType ''S'' [(''_'', StringType)] init_store = Inl InvalidFieldName
   \<and> MakeStructType ''S'' [(''0a'', StringType)] init_store = Inl InvalidFieldName
   \<and> MakeStructType ''S'' [(''_a'', StringType)] init_store = Inl InvalidFieldName
   \<and> (\<exists>r. MakeStructType ''S'' [(''a'', StringType)] init_store = Inr r)
   \<and> (\<exists>r. MakeStructType ''S'' [(''A'', StringType)] init_store = Inr r)
   \<and> (\<exists>r. MakeStructType ''S'' [(''a0'', StringType)] init_store = Inr r)
   \<and> (\<exists>r. MakeStructType ''S'' [(''a_'', StringType)] init_store = Inr r)
   \<and> (\<exists>r. MakeStructType ''S'' [(''a0_'', StringType)] init_store = Inr r)"
proof -
  have bad: "'''' \<notin> field_name_grammar" "'' '' \<notin> field_name_grammar"
    "'' a'' \<notin> field_name_grammar" "''a '' \<notin> field_name_grammar"
    "''0'' \<notin> field_name_grammar" "''_'' \<notin> field_name_grammar"
    "''0a'' \<notin> field_name_grammar" "''_a'' \<notin> field_name_grammar"
    unfolding fieldNameRe_grammar [symmetric]
    by (simp_all add: fieldNameRe_MatchString_def isAlpha_def isWord_def)
  have good: "''a'' \<in> field_name_grammar" "''A'' \<in> field_name_grammar"
    "''a0'' \<in> field_name_grammar" "''a_'' \<in> field_name_grammar"
    "''a0_'' \<in> field_name_grammar"
    unfolding fieldNameRe_grammar [symmetric]
    by (simp_all add: fieldNameRe_MatchString_def isAlpha_def isWord_def)
  show ?thesis
    using bad good
      MakeStructType_field_names [of "''S''" "[('''', StringType)]" init_store]
      MakeStructType_field_names [of "''S''" "[('' '', StringType)]" init_store]
      MakeStructType_field_names [of "''S''" "[('' a'', StringType)]" init_store]
      MakeStructType_field_names [of "''S''" "[(''a '', StringType)]" init_store]
      MakeStructType_field_names [of "''S''" "[(''0'', StringType)]" init_store]
      MakeStructType_field_names [of "''S''" "[(''_'', StringType)]" init_store]
      MakeStructType_field_names [of "''S''" "[(''0a'', StringType)]" init_store]
      MakeStructType_field_names [of "''S''" "[(''_a'', StringType)]" init_store]
      MakeStructType_field_names [of "''S''" "[(''a'', StringType)]" init_store]
      MakeStructType_field_names [of "''S''" "[(''A'', StringType)]" init_store]
      MakeStructType_field_names [of "''S''" "[(''a0'', StringType)]" init_store]
      MakeStructType_field_names [of "''S''" "[(''a_'', StringType)]" init_store]
      MakeStructType_field_names [of "''S''" "[(''a0_'', StringType)]" init_store]
    by simp
qed

section \<open>Properties of the batch store adaptor\<close>

lemma cs_schedule_all:
  "cs (schedule_all cs_Put reqs lbs) = fold cs_Put (map fst reqs) (cs lbs)"
  by (induction cs_Put reqs lbs rule: schedule_all.induct) (simp_all add: SchedulePut_def)

lemma received_fold_rec_Put:
  "received (fold rec_Put xs st) = received st @ xs"
  by (induction xs arbitrary: st) (simp_all add: rec_Put_def)

lemma closed_fold_rec_Put:
  "closed (fold rec_Put xs st) = closed st"
  by (induction xs arbitrary: st) (simp_all add: rec_Put_def)

text \<open>
  C8. \<open>SchedulePut\<close> is a \<open>Put\<close> of the chunk on the underlying store, at once and
  whatever the hints; \<open>Flush\<close> changes nothing; \<open>Close\<close> is \<open>Flush\<close> followed by the
  underlying store's \<open>Close\<close>. So a store closed after a series of \<open>SchedulePut\<close>s has
  been handed every scheduled chunk, in order, before its own \<open>Close\<close> ran.
\<close>

theorem BatchStoreAdaptor_immediate_put:
  "SchedulePut cs_Put c hints lbs = lbs\<lparr>cs := cs_Put c (cs lbs)\<rparr>
   \<and> SchedulePut cs_Put c hints lbs = SchedulePut cs_Put c hints' lbs
   \<and> Flush lbs = lbs
   \<and> Close cs_Close lbs = (fst (cs_Close (cs (Flush lbs))), (Flush lbs)\<lparr>cs := snd (cs_Close (cs (Flush lbs)))\<rparr>)
   \<and> Close cs_Close (schedule_all cs_Put reqs lbs)
       = (fst (cs_Close (fold cs_Put (map fst reqs) (cs lbs))),
          (schedule_all cs_Put reqs lbs)\<lparr>cs := snd (cs_Close (fold cs_Put (map fst reqs) (cs lbs)))\<rparr>)
   \<and> received (cs (snd (Close rec_Close (schedule_all rec_Put reqs
         (NewBatchStoreAdaptor \<lparr>received = [], closed = False\<rparr>))))) = map fst reqs
   \<and> closed (cs (snd (Close rec_Close (schedule_all rec_Put reqs
         (NewBatchStoreAdaptor \<lparr>received = [], closed = False\<rparr>)))))"
  by (simp add: SchedulePut_def Flush_def Close_def cs_schedule_all received_fold_rec_Put
      closed_fold_rec_Put rec_Close_def NewBatchStoreAdaptor_def split: prod.splits)

section \<open>Properties of the encoding of types and of content addresses\<close>

lemma closed_uptoD:
  "closed_upto k s \<Longrightarrow> p < k \<Longrightarrow> x \<in> set (ptrsOf (Desc (s ! p))) \<Longrightarrow> x < k"
  unfolding closed_upto_def list_all_iff
  by (metis in_set_conv_nth length_take min.absorb2 nth_take)

lemma indexOfType_append_notin:
  "p \<notin> set ps \<Longrightarrow> indexOfType p (qs @ ps) = indexOfType p qs"
proof (induction qs)
  case Nil
  then show ?case by (induction ps) auto
next
  case (Cons q qs)
  then show ?case by simp
qed

lemma set_IterFields: "set (IterFields fs) = set fs"
  by (simp add: IterFields_def)

lemma writeTypes_prefix_step:
  assumes "\<And>qs p. p < k \<Longrightarrow> writeType n s (qs @ ps) p = writeType n s' (qs @ ps') p"
  shows "\<forall>x \<in> set ts. x < k \<Longrightarrow> writeTypes n s (qs @ ps) ts = writeTypes n s' (qs @ ps') ts"
  by (induction ts) (simp_all add: assms split: option.splits)

lemma writeFields_prefix_step:
  assumes "\<And>qs p. p < k \<Longrightarrow> writeType n s (qs @ ps) p = writeType n s' (qs @ ps') p"
  shows "\<forall>x \<in> set fs. snd x < k \<Longrightarrow> writeFields n s (qs @ ps) fs = writeFields n s' (qs @ ps') fs"
  by (induction fs) (auto simp: assms split: option.splits)

lemma writeType_prefix:
  assumes cl: "closed_upto k s" and len: "k \<le> length s'"
    and agree: "\<And>q. q < k \<Longrightarrow> Desc (s' ! q) = Desc (s ! q)"
    and ps: "\<forall>x \<in> set ps. k \<le> x" and ps': "\<forall>x \<in> set ps'. k \<le> x"
  shows "p < k \<Longrightarrow> writeType n s (qs @ ps) p = writeType n s' (qs @ ps') p"
proof (induction n arbitrary: qs p)
  case 0
  then show ?case by simp
next
  case (Suc n)
  have lens: "k \<le> length s" using cl by (simp add: closed_upto_def)
  have kids: "\<And>x. x \<in> set (ptrsOf (Desc (s ! p))) \<Longrightarrow> x < k"
    using closed_uptoD [OF cl Suc.prems] by blast
  have notin: "p \<notin> set ps" "p \<notin> set ps'" using ps ps' Suc.prems by auto
  show ?case
  proof (cases "Desc (s ! p)")
    case (PrimitiveDesc kd)
    then show ?thesis using Suc.prems lens len agree [OF Suc.prems] by simp
  next
    case (CompoundDesc kd es)
    have "writeTypes n s (qs @ ps) es = writeTypes n s' (qs @ ps') es"
      by (rule writeTypes_prefix_step [where k = k]) (use Suc.IH kids CompoundDesc in auto)
    then show ?thesis using CompoundDesc Suc.prems lens len agree [OF Suc.prems] by simp
  next
    case (StructDesc name fs)
    have "writeFields n s ((p # qs) @ ps) (IterFields fs) = writeFields n s' ((p # qs) @ ps') (IterFields fs)"
      by (rule writeFields_prefix_step [where k = k]) (use Suc.IH kids StructDesc in \<open>auto simp: set_IterFields\<close>)
    then show ?thesis
      using StructDesc Suc.prems lens len agree [OF Suc.prems] notin
      by (simp add: indexOfType_append_notin split: option.splits)
  qed
qed

lemma refs_validD:
  "refs_valid H n s \<Longrightarrow> p < length s \<Longrightarrow> ref (s ! p) = Some r \<Longrightarrow> getRef H n s p = Some r"
proof -
  assume a: "refs_valid H n s" "p < length s" "ref (s ! p) = Some r"
  from a(1) have "\<forall>p \<in> set [0..<length s].
      (case ref (s ! p) of None \<Rightarrow> True | Some r \<Rightarrow> getRef H n s p = Some r)"
    by (simp only: refs_valid_def list_all_iff)
  with a(2) have "case ref (s ! p) of None \<Rightarrow> True | Some r \<Rightarrow> getRef H n s p = Some r"
    by simp
  with a(3) show ?thesis by simp
qed

lemma refs_validI:
  "(\<And>p r. p < length s \<Longrightarrow> ref (s ! p) = Some r \<Longrightarrow> getRef H n s p = Some r) \<Longrightarrow> refs_valid H n s"
  by (auto simp: refs_valid_def list_all_iff split: option.splits)

lemma writeTypes_Desc_step:
  assumes "\<And>ps p. writeType n s ps p = writeType n s' ps p"
  shows "writeTypes n s ps ts = writeTypes n s' ps ts"
  by (induction ts) (simp_all add: assms split: option.splits)

lemma writeFields_Desc_step:
  assumes "\<And>ps p. writeType n s ps p = writeType n s' ps p"
  shows "writeFields n s ps fs = writeFields n s' ps fs"
  by (induction fs) (auto simp: assms split: option.splits)

lemma writeType_Desc_cong:
  assumes "map Desc s' = map Desc s"
  shows "writeType n s ps p = writeType n s' ps p"
proof (induction n arbitrary: ps p)
  case 0
  then show ?case by simp
next
  case (Suc n)
  have len: "length s' = length s" using assms by (metis length_map)
  have d: "p < length s \<Longrightarrow> Desc (s' ! p) = Desc (s ! p)"
    using assms len by (metis nth_map)
  show ?case
  proof (cases "p < length s")
    case True
    show ?thesis
      using True len d [OF True] writeTypes_Desc_step [of n s s', OF Suc.IH]
        writeFields_Desc_step [of n s s', OF Suc.IH]
      by (simp split: TypeDesc.splits option.splits)
  next
    case False
    then show ?thesis using len by simp
  qed
qed

lemma getRef_Desc_cong: "map Desc s' = map Desc s \<Longrightarrow> getRef H n s' p = getRef H n s p"
  by (simp add: getRef_def writeType_Desc_cong [of s' s])

lemma map_Desc_update_ref:
  "map Desc (s[p := (s ! p)\<lparr>ref := r\<rparr>]) = map Desc s"
  by (cases "p < length s") (auto simp: list_eq_iff_nth_eq nth_list_update)

lemma Type_Ref_valid:
  assumes "refs_valid H n s" "p < length s" "getRef H n s p = Some r"
  shows "\<exists>s'. Type_Ref H n p s = Some (r, s') \<and> map Desc s' = map Desc s \<and> refs_valid H n s'"
proof (cases "ref (s ! p)")
  case None
  let ?s' = "s[p := (s ! p)\<lparr>ref := Some r\<rparr>]"
  have d: "map Desc ?s' = map Desc s" by (rule map_Desc_update_ref)
  have "refs_valid H n ?s'"
  proof (rule refs_validI)
    fix q r' assume q: "q < length ?s'" and c: "ref (?s' ! q) = Some r'"
    show "getRef H n ?s' q = Some r'"
    proof (cases "q = p")
      case True
      with c assms(2) have "r' = r" by simp
      then show ?thesis using True assms(3) getRef_Desc_cong [OF d] by simp
    next
      case False
      with c q have "ref (s ! q) = Some r'" "q < length s" by simp_all
      then show ?thesis using refs_validD [OF assms(1)] getRef_Desc_cong [OF d] by simp
    qed
  qed
  then show ?thesis using None assms d by (auto simp: Type_Ref_def EnsureRef_def)
next
  case (Some r')
  then have "r' = r" using refs_validD [OF assms(1,2)] assms(3) by simp
  then show ?thesis using Some assms by (auto simp: Type_Ref_def EnsureRef_def)
qed

lemma Type_Ref_result:
  assumes "refs_valid H n s" "Type_Ref H n p s = Some (r, s')"
  shows "p < length s \<and> getRef H n s p = Some r"
  using assms refs_validD [OF assms(1), of p]
  by (auto simp: Type_Ref_def EnsureRef_def split: if_splits option.splits)

lemma Equals_content_address:
  assumes "refs_valid H n s" "t < length s" "u < length s"
    and "getRef H n s t = Some rt" "getRef H n s u = Some ru"
  shows "\<exists>s'. Equals H n t (Some u) s = Some (rt = ru, s') \<and> map Desc s' = map Desc s
           \<and> refs_valid H n s'"
proof -
  obtain s1 where 1: "Type_Ref H n t s = Some (rt, s1)" "map Desc s1 = map Desc s" "refs_valid H n s1"
    using Type_Ref_valid [OF assms(1,2,4)] by blast
  have "u < length s1" using 1(2) assms(3) by (metis length_map)
  moreover have "getRef H n s1 u = Some ru" using assms(5) getRef_Desc_cong [OF 1(2)] by simp
  ultimately obtain s2 where 2: "Type_Ref H n u s1 = Some (ru, s2)" "map Desc s2 = map Desc s1"
    "refs_valid H n s2"
    using Type_Ref_valid [OF 1(3)] by blast
  show ?thesis using 1 2 by (simp add: Equals_def)
qed

lemma writeTypes_fuel_step:
  assumes "\<And>ps p e. writeType n s ps p = Some e \<Longrightarrow> writeType (Suc n) s ps p = Some e"
  shows "writeTypes n s ps ts = Some e \<Longrightarrow> writeTypes (Suc n) s ps ts = Some e"
proof (induction ts arbitrary: e)
  case Nil
  then show ?case by simp
next
  case (Cons t ts)
  from Cons.prems obtain a b where ab: "writeType n s ps t = Some a" "writeTypes n s ps ts = Some b"
    "e = a @ b"
    by (auto split: option.splits)
  show ?case using assms [OF ab(1)] Cons.IH [OF ab(2)] ab(3) by simp
qed

lemma writeFields_fuel_step:
  assumes "\<And>ps p e. writeType n s ps p = Some e \<Longrightarrow> writeType (Suc n) s ps p = Some e"
  shows "writeFields n s ps fs = Some e \<Longrightarrow> writeFields (Suc n) s ps fs = Some e"
proof (induction fs arbitrary: e)
  case Nil
  then show ?case by simp
next
  case (Cons f fs)
  obtain name t where f: "f = (name, t)" by (cases f)
  from Cons.prems f obtain a b where ab: "writeType n s ps t = Some a"
    "writeFields n s ps fs = Some b" "e = Str name # a @ b"
    by (auto split: option.splits)
  show ?case using assms [OF ab(1)] Cons.IH [OF ab(2)] ab(3) f by simp
qed

lemma writeType_fuel_Suc:
  "writeType n s ps p = Some e \<Longrightarrow> writeType (Suc n) s ps p = Some e"
proof (induction n arbitrary: ps p e)
  case 0
  then show ?case by simp
next
  case (Suc n)
  have ts: "\<And>ps ts e. writeTypes n s ps ts = Some e \<Longrightarrow> writeTypes (Suc n) s ps ts = Some e"
    by (rule writeTypes_fuel_step) (rule Suc.IH)
  have fs: "\<And>ps fs e. writeFields n s ps fs = Some e \<Longrightarrow> writeFields (Suc n) s ps fs = Some e"
    by (rule writeFields_fuel_step) (rule Suc.IH)
  from Suc.prems have p: "p < length s" by (simp split: if_splits)
  show ?case
  proof (cases "Desc (s ! p)")
    case (PrimitiveDesc k)
    with Suc.prems p show ?thesis by (simp split: if_splits)
  next
    case (CompoundDesc k es)
    with Suc.prems p obtain x where x: "writeTypes n s ps es = Some x"
      by (auto split: if_splits)
    from ts [OF x] x CompoundDesc Suc.prems p show ?thesis
      by (auto simp del: writeTypes.simps split: if_splits)
  next
    case (StructDesc name flds)
    show ?thesis
    proof (cases "indexOfType p ps")
      case None
      with StructDesc Suc.prems p obtain x where
        x: "writeFields n s (p # ps) (IterFields flds) = Some x"
        by auto
      from fs [OF x] x None StructDesc Suc.prems p show ?thesis
        by (auto simp del: writeFields.simps)
    next
      case (Some i)
      with StructDesc Suc.prems p show ?thesis by simp
    qed
  qed
qed

lemma writeType_fuel_mono:
  "writeType n s ps p = Some e \<Longrightarrow> n \<le> m \<Longrightarrow> writeType m s ps p = Some e"
  by (induction m) (auto simp: le_Suc_eq dest: writeType_fuel_Suc simp del: writeType.simps)

lemma getRef_fuel_mono:
  "getRef H n s p = Some r \<Longrightarrow> n \<le> m \<Longrightarrow> getRef H m s p = Some r"
  by (auto simp: getRef_def dest: writeType_fuel_mono)

lemma refs_valid_fuel_mono:
  "refs_valid H n s \<Longrightarrow> n \<le> m \<Longrightarrow> refs_valid H m s"
  by (rule refs_validI) (auto dest: refs_validD getRef_fuel_mono)

lemma closed_upto_append:
  "closed_store s \<Longrightarrow> closed_upto (length s) (s @ ext)"
  by (simp add: closed_store_def closed_upto_def)

lemma writeType_extend:
  assumes "closed_store s" "p < length s"
  shows "writeType n (s @ ext) [] p = writeType n s [] p"
  using writeType_prefix [of "length s" s "s @ ext" "[]" "[]" p n "[]"] assms
  by (simp add: closed_store_def nth_append)

lemma getRef_extend:
  "closed_store s \<Longrightarrow> p < length s \<Longrightarrow> getRef H n (s @ ext) p = getRef H n s p"
  by (simp add: getRef_def writeType_extend)

lemma refs_valid_buildType:
  assumes "closed_store s" "refs_valid H n s"
  shows "refs_valid H n (snd (buildType d s))"
proof (rule refs_validI)
  fix p r
  assume p: "p < length (snd (buildType d s))" and c: "ref (snd (buildType d s) ! p) = Some r"
  have "p < length s" using p c by (cases "p = length s") (auto simp: buildType_def nth_append)
  moreover from this c have "ref (s ! p) = Some r" by (simp add: buildType_def nth_append)
  ultimately show "getRef H n (snd (buildType d s)) p = Some r"
    using refs_validD [OF assms(2)] getRef_extend [OF assms(1)] by (simp add: buildType_def)
qed

lemma closed_store_buildType:
  assumes "closed_store s" "\<forall>x \<in> set (ptrsOf d). x < length s"
  shows "closed_store (snd (buildType d s))"
  using assms
  by (auto simp: closed_store_def closed_upto_def buildType_def list_all_iff
      intro: less_SucI)

lemma closed_store_Desc_cong:
  "map Desc s' = map Desc s \<Longrightarrow> closed_store s' = closed_store s"
proof -
  assume a: "map Desc s' = map Desc s"
  then have l: "length s' = length s" by (metis length_map)
  have "list_all (\<lambda>t. list_all (\<lambda>q. q < length s) (ptrsOf (Desc t))) s'
        = list_all (\<lambda>d. list_all (\<lambda>q. q < length s) (ptrsOf d)) (map Desc s')"
    by (simp add: list_all_iff)
  also have "\<dots> = list_all (\<lambda>t. list_all (\<lambda>q. q < length s) (ptrsOf (Desc t))) s"
    by (simp add: a list_all_iff)
  finally show ?thesis by (simp add: closed_store_def closed_upto_def l)
qed

lemma struct_twins_encoding:
  assumes cl: "closed_upto k s" and t: "k \<le> t" "t < length s" and u: "k \<le> u" "u < length s"
    and dt: "Desc (s ! t) = StructDesc name flds" and du: "Desc (s ! u) = StructDesc name flds"
    and fl: "\<forall>x \<in> set flds. snd x < k"
  shows "writeType n s [] t = writeType n s [] u"
proof (cases n)
  case 0
  then show ?thesis by simp
next
  case (Suc m)
  have "writeFields m s ([] @ [t]) (IterFields flds) = writeFields m s ([] @ [u]) (IterFields flds)"
  proof (rule writeFields_prefix_step [where k = k])
    fix qs p assume "p < k"
    then show "writeType m s (qs @ [t]) p = writeType m s (qs @ [u]) p"
      using writeType_prefix [OF cl, of s "[t]" "[u]" p m qs] cl t u
      by (simp add: closed_upto_def)
  next
    show "\<forall>x \<in> set (IterFields flds). snd x < k" using fl by (simp add: set_IterFields)
  qed
  then show ?thesis using Suc t u dt du by simp
qed

lemma MakeStructType_Inr:
  "MakeStructType name flds s = Inr (t, s1) \<Longrightarrow>
     t = length s \<and> s1 = s @ [\<lparr>Desc = StructDesc name flds, ref = None\<rparr>]"
  by (auto simp: MakeStructType_def buildType_def split: sum.splits)

lemma Equals_same_struct:
  assumes cl: "closed_store s" and rv: "refs_valid H n s"
    and fl: "\<forall>x \<in> set flds. snd x < length s"
    and m1: "MakeStructType name flds s = Inr (t, s1)"
    and m2: "MakeStructType name flds s1 = Inr (u, s2)"
    and enc: "writeType n s2 [] t = Some e"
  shows "t \<noteq> u \<and> (\<exists>s3. Equals H n t (Some u) s2 = Some (True, s3))"
proof -
  let ?T = "\<lparr>Desc = StructDesc name flds, ref = None\<rparr>"
  have t: "t = length s" and s1: "s1 = s @ [?T]" using MakeStructType_Inr [OF m1] by simp_all
  have u: "u = Suc (length s)" and s2: "s2 = s @ [?T, ?T]"
    using MakeStructType_Inr [OF m2] s1 by simp_all
  have cl1: "closed_store s1"
    using closed_store_buildType [OF cl, of "StructDesc name flds"] fl s1
    by (simp add: buildType_def)
  have rv1: "refs_valid H n s1"
    using refs_valid_buildType [OF cl rv, of "StructDesc name flds"] s1 by (simp add: buildType_def)
  have rv2: "refs_valid H n s2"
    using refs_valid_buildType [OF cl1 rv1, of "StructDesc name flds"] s1 s2
    by (simp add: buildType_def)
  have "writeType n s2 [] t = writeType n s2 [] u"
    by (rule struct_twins_encoding [where k = "length s" and name = name and flds = flds])
       (use closed_upto_append [OF cl, of "[?T, ?T]"] fl in \<open>simp_all add: s2 t u nth_append\<close>)
  with enc have "getRef H n s2 t = Some (H (writeKind TypeKind @ e))"
    "getRef H n s2 u = Some (H (writeKind TypeKind @ e))"
    by (simp_all add: getRef_def)
  from Equals_content_address [OF rv2 _ _ this] show ?thesis by (auto simp: t u s2)
qed

lemma Equals_renamed_struct:
  assumes cl: "closed_store s" and rv: "refs_valid H n s"
    and fl: "\<forall>x \<in> set flds. snd x < length s"
    and m1: "MakeStructType name flds s = Inr (t, s1)"
    and m2: "MakeStructType name' flds s1 = Inr (u, s2)"
    and enc: "writeType n s2 [] t = Some e" "writeType n s2 [] u = Some e'"
    and ne: "name \<noteq> name'"
    and inj: "inj_on H {writeKind TypeKind @ e, writeKind TypeKind @ e'}"
  shows "e \<noteq> e' \<and> (\<exists>s3. Equals H n t (Some u) s2 = Some (False, s3))"
proof -
  let ?T = "\<lparr>Desc = StructDesc name flds, ref = None\<rparr>"
  let ?U = "\<lparr>Desc = StructDesc name' flds, ref = None\<rparr>"
  have t: "t = length s" and s1: "s1 = s @ [?T]" using MakeStructType_Inr [OF m1] by simp_all
  have u: "u = Suc (length s)" and s2: "s2 = s @ [?T, ?U]"
    using MakeStructType_Inr [OF m2] s1 by simp_all
  have cl1: "closed_store s1"
    using closed_store_buildType [OF cl, of "StructDesc name flds"] fl s1
    by (simp add: buildType_def)
  have rv1: "refs_valid H n s1"
    using refs_valid_buildType [OF cl rv, of "StructDesc name flds"] s1 by (simp add: buildType_def)
  have rv2: "refs_valid H n s2"
    using refs_valid_buildType [OF cl1 rv1, of "StructDesc name' flds"] s1 s2
    by (simp add: buildType_def)
  obtain m where n: "n = Suc m" using enc(1) by (cases n) auto
  have "\<exists>x. e = writeKind StructKind @ Str name # x"
    using enc(1) by (auto simp: n s2 t nth_append)
  moreover have "\<exists>x. e' = writeKind StructKind @ Str name' # x"
    using enc(2) by (auto simp: n s2 u nth_append)
  ultimately have ee: "e \<noteq> e'" using ne by (auto simp: writeKind_def)
  then have hne: "H (writeKind TypeKind @ e) \<noteq> H (writeKind TypeKind @ e')"
    using inj by (auto simp: inj_on_def)
  have g: "getRef H n s2 t = Some (H (writeKind TypeKind @ e))"
    "getRef H n s2 u = Some (H (writeKind TypeKind @ e'))"
    using enc by (simp_all add: getRef_def)
  have "t < length s2" "u < length s2" by (simp_all add: t u s2)
  from Equals_content_address [OF rv2 this g] hne ee show ?thesis by auto
qed

lemma refsOf_result:
  "refs_valid H n s \<Longrightarrow> refsOf H n ts s = Some (rs, s') \<Longrightarrow>
     map (getRef H n s) ts = map Some rs \<and> map Desc s' = map Desc s \<and> refs_valid H n s'
     \<and> (\<forall>p \<in> set ts. p < length s)"
proof (induction ts arbitrary: s rs s')
  case Nil
  then show ?case by simp
next
  case (Cons t ts)
  from Cons.prems(2) obtain r s1 rs1 where
    1: "Type_Ref H n t s = Some (r, s1)" and 2: "refsOf H n ts s1 = Some (rs1, s')"
    and rs: "rs = r # rs1"
    by (auto split: option.splits)
  from Type_Ref_result [OF Cons.prems(1) 1] have t: "t < length s" "getRef H n s t = Some r"
    by simp_all
  from Type_Ref_valid [OF Cons.prems(1) t] 1
  have s1: "map Desc s1 = map Desc s" "refs_valid H n s1" by auto
  from Cons.IH [OF s1(2) 2]
  have ih: "map (getRef H n s1) ts = map Some rs1" "map Desc s' = map Desc s1"
    "refs_valid H n s'" "\<forall>p \<in> set ts. p < length s1"
    by simp_all
  have l: "length s1 = length s" using s1(1) by (metis length_map)
  have "getRef H n s1 = getRef H n s" by (rule ext) (rule getRef_Desc_cong [OF s1(1)])
  then show ?case using t ih s1 rs l by simp
qed

lemma refsOf_total:
  "refs_valid H n s \<Longrightarrow> \<forall>p \<in> set ts. p < length s \<and> getRef H n s p \<noteq> None \<Longrightarrow>
     \<exists>rs s'. refsOf H n ts s = Some (rs, s')"
proof (induction ts arbitrary: s)
  case Nil
  then show ?case by simp
next
  case (Cons t ts)
  from Cons.prems(2) obtain r where t: "t < length s" "getRef H n s t = Some r" by auto
  from Type_Ref_valid [OF Cons.prems(1) t] obtain s1 where
    1: "Type_Ref H n t s = Some (r, s1)" "map Desc s1 = map Desc s" "refs_valid H n s1"
    by blast
  have l: "length s1 = length s" using 1(2) by (metis length_map)
  have "\<forall>p \<in> set ts. p < length s1 \<and> getRef H n s1 p \<noteq> None"
    using Cons.prems(2) l by (simp add: getRef_Desc_cong [OF 1(2)])
  from Cons.IH [OF 1(3) this] 1(1) show ?case by auto
qed

lemma sort_unionTypes_result:
  assumes rv: "refs_valid H n s" and su: "sort_unionTypes H n xs s = Some (ms, s1)"
  shows "mset ms = mset xs \<and> sorted (map (getRef H n s) ms) \<and> map Desc s1 = map Desc s
         \<and> refs_valid H n s1"
proof (cases "length xs < 2")
  case True
  then have "sorted (map (getRef H n s) xs)" by (cases xs) (auto simp: Suc_length_conv)
  with True su rv show ?thesis by (simp add: sort_unionTypes_def)
next
  case False
  with su obtain rs where r: "refsOf H n xs s = Some (rs, s1)"
    and ms: "ms = map snd (sort_key fst (zip rs xs))"
    by (auto simp: sort_unionTypes_def split: option.splits)
  from refsOf_result [OF rv r]
  have g: "map (getRef H n s) xs = map Some rs" and d: "map Desc s1 = map Desc s"
    and rv1: "refs_valid H n s1"
    by simp_all
  have len: "length rs = length xs" using g by (metis length_map)
  have pairs: "\<forall>z \<in> set (zip rs xs). getRef H n s (snd z) = Some (fst z)"
  proof
    fix z assume "z \<in> set (zip rs xs)"
    then obtain i where i: "i < length xs" "z = (rs ! i, xs ! i)"
      using len by (auto simp: set_zip)
    have "map (getRef H n s) xs ! i = map Some rs ! i" using g by simp
    with i(1) len have "getRef H n s (xs ! i) = Some (rs ! i)" by simp
    with i show "getRef H n s (snd z) = Some (fst z)" by simp
  qed
  have "mset ms = mset (map snd (zip rs xs))" unfolding ms by simp
  then have m: "mset ms = mset xs" using len by simp
  have "map (getRef H n s) ms = map (\<lambda>z. Some (fst z)) (sort_key fst (zip rs xs))"
    unfolding ms using pairs by simp
  moreover have "sorted (map (\<lambda>z. Some (fst z)) (sort_key fst (zip rs xs)))"
    using sorted_sort_key [of fst "zip rs xs"] by (simp add: sorted_map)
  ultimately show ?thesis using m d rv1 by simp
qed

lemma sort_unionTypes_total:
  assumes "refs_valid H n s" "\<forall>p \<in> set xs. p < length s \<and> getRef H n s p \<noteq> None"
  shows "\<exists>ms s1. sort_unionTypes H n xs s = Some (ms, s1)"
  using refsOf_total [OF assms] by (auto simp: sort_unionTypes_def)

lemma writeTypes_those:
  "writeTypes n s ps ts = map_option concat (those (map (writeType n s ps) ts))"
  by (induction ts) (auto split: option.splits simp: option.map_comp comp_def)

lemma sorted_perm_same_keys:
  fixes f :: "'a \<Rightarrow> 'b :: linorder"
  assumes "mset ms1 = mset ms2" "sorted (map f ms1)" "sorted (map f ms2)"
    and "\<forall>a \<in> set ms1. \<forall>b \<in> set ms1. f a = f b \<longrightarrow> g a = g b"
  shows "map g ms1 = map g ms2"
proof -
  have "mset (map f ms1) = mset (map f ms2)" by (simp only: mset_map assms(1))
  then have "sort (map f ms2) = map f ms1" using assms(2) by (rule properties_for_sort)
  moreover have "sort (map f ms2) = map f ms2" using assms(3) by (rule sorted_sort_id)
  ultimately have k: "map f ms1 = map f ms2" by simp
  have set: "set ms2 = set ms1" using assms(1) by (rule mset_eq_setD [symmetric])
  have len: "length ms1 = length ms2" using assms(1) by (rule mset_eq_length)
  show ?thesis
  proof (rule nth_equalityI)
    show "length (map g ms1) = length (map g ms2)" using len by simp
  next
    fix i assume "i < length (map g ms1)"
    then have i: "i < length ms1" "i < length ms2" using len by simp_all
    have "map f ms1 ! i = map f ms2 ! i" using k by simp
    then have "f (ms1 ! i) = f (ms2 ! i)" using i by simp
    moreover have m1: "ms1 ! i \<in> set ms1" using i by simp
    moreover have "ms2 ! i \<in> set ms2" using i by simp
    then have m2: "ms2 ! i \<in> set ms1" by (simp only: set)
    ultimately have "g (ms1 ! i) = g (ms2 ! i)"
      using bspec [OF bspec [OF assms(4) m1] m2] by simp
    then show "map g ms1 ! i = map g ms2 ! i" using i by simp
  qed
qed

lemma MakeUnionType_result:
  assumes rv: "refs_valid H n s" and cl: "closed_store s"
    and xs: "\<forall>p \<in> set xs. p < length s"
    and m: "MakeUnionType H n xs s = Some (u, s')"
  shows "\<exists>ms. u = length s \<and> length s' = Suc (length s)
           \<and> Desc (s' ! u) = CompoundDesc UnionKind ms
           \<and> mset ms = mset xs \<and> sorted (map (getRef H n s') ms)
           \<and> refs_valid H n s' \<and> closed_store s'
           \<and> (\<forall>p < length s. getRef H n s' p = getRef H n s p)"
proof -
  from m obtain ms s1 where su: "sort_unionTypes H n xs s = Some (ms, s1)"
    and u: "u = length s1" and s': "s' = s1 @ [\<lparr>Desc = CompoundDesc UnionKind ms, ref = None\<rparr>]"
    by (auto simp: MakeUnionType_def buildType_def split: option.splits)
  from sort_unionTypes_result [OF rv su]
  have ms: "mset ms = mset xs" and so: "sorted (map (getRef H n s) ms)"
    and d: "map Desc s1 = map Desc s" and rv1: "refs_valid H n s1"
    by simp_all
  have l: "length s1 = length s" using d by (metis length_map)
  have cl1: "closed_store s1" using cl closed_store_Desc_cong [OF d] by simp
  have set: "set ms = set xs" using ms by (rule mset_eq_setD)
  have g: "\<forall>p < length s. getRef H n s' p = getRef H n s p"
    using getRef_extend [OF cl1] getRef_Desc_cong [OF d] l by (simp add: s')
  have eq: "map (getRef H n s') ms = map (getRef H n s) ms"
    using g xs set by simp
  have so': "sorted (map (getRef H n s') ms)" unfolding eq by (rule so)
  have rv': "refs_valid H n s'"
    using refs_valid_buildType [OF cl1 rv1, of "CompoundDesc UnionKind ms"]
    by (simp add: s' buildType_def)
  have cl': "closed_store s'"
    using closed_store_buildType [OF cl1, of "CompoundDesc UnionKind ms"] xs set l
    by (simp add: s' buildType_def)
  have du: "Desc (s' ! u) = CompoundDesc UnionKind ms" by (simp add: s' u)
  have ls: "length s' = Suc (length s)" by (simp add: s' l)
  show ?thesis
    using u l ls du ms so' rv' cl' g by (intro exI [of _ ms] conjI) simp_all
qed

lemma MakeUnionType_total:
  assumes "refs_valid H n s" "\<forall>p \<in> set xs. p < length s \<and> getRef H n s p \<noteq> None"
  shows "\<exists>u s'. MakeUnionType H n xs s = Some (u, s')"
  using sort_unionTypes_total [OF assms] by (auto simp: MakeUnionType_def buildType_def)

lemma writeType_union:
  assumes "u < length s" "Desc (s ! u) = CompoundDesc UnionKind ms"
  shows "writeType (Suc n) s [] u =
           map_option (\<lambda>ts. writeKind UnionKind @ [Uint32 (length ms)] @ ts)
             (map_option concat (those (map (writeType n s []) ms)))"
  using assms by (simp add: writeTypes_those)

lemma those_map_Some:
  "\<forall>x \<in> set xs. f x \<noteq> None \<Longrightarrow> those (map f xs) \<noteq> None"
  by (induction xs) (auto split: option.splits)

lemma MakeUnionType_permutation:
  assumes rv: "refs_valid H n s" and cl: "closed_store s"
    and xs: "\<forall>p \<in> set xs. p < length s"
    and enc: "\<forall>p \<in> set xs. writeType n s [] p \<noteq> None"
    and cf: "\<forall>a \<in> set xs. \<forall>b \<in> set xs.
               getRef H n s a = getRef H n s b \<longrightarrow> writeType n s [] a = writeType n s [] b"
    and perm: "mset ys = mset xs"
    and m1: "MakeUnionType H n xs s = Some (u1, s1)"
    and m2: "MakeUnionType H n ys s1 = Some (u2, s2)"
  shows "u1 \<noteq> u2 \<and> (\<exists>s3. Equals H (Suc n) u1 (Some u2) s2 = Some (True, s3))"
proof -
  from MakeUnionType_result [OF rv cl xs m1] obtain ms1 where
    1: "u1 = length s" "length s1 = Suc (length s)" "Desc (s1 ! u1) = CompoundDesc UnionKind ms1"
    "mset ms1 = mset xs" "sorted (map (getRef H n s1) ms1)" "refs_valid H n s1" "closed_store s1"
    "\<forall>p < length s. getRef H n s1 p = getRef H n s p"
    by (elim exE conjE) (rule that, assumption+)
  have setys: "set ys = set xs" using perm by (rule mset_eq_setD)
  have ys: "\<forall>p \<in> set ys. p < length s1" using xs setys 1(2) by (simp add: less_SucI)
  from MakeUnionType_result [OF 1(6,7) ys m2] obtain ms2 where
    2: "u2 = length s1" "length s2 = Suc (length s1)" "Desc (s2 ! u2) = CompoundDesc UnionKind ms2"
    "mset ms2 = mset ys" "sorted (map (getRef H n s2) ms2)" "refs_valid H n s2" "closed_store s2"
    "\<forall>p < length s1. getRef H n s2 p = getRef H n s1 p"
    by (elim exE conjE) (rule that, assumption+)
  have set1: "set ms1 = set xs" using 1(4) by (rule mset_eq_setD)
  have mm: "mset ms1 = mset ms2" by (simp only: 1(4) 2(4) perm)
  have "set ms2 = set ms1" using mm [symmetric] by (rule mset_eq_setD)
  then have set2: "set ms2 = set xs" by (simp only: set1)
  \<comment> \<open>the first union object is not touched by the second call\<close>
  obtain ms' s1' where su2: "sort_unionTypes H n ys s1 = Some (ms', s1')"
    and s2: "s2 = s1' @ [\<lparr>Desc = CompoundDesc UnionKind ms', ref = None\<rparr>]"
    using m2 by (auto simp: MakeUnionType_def buildType_def split: option.splits)
  from sort_unionTypes_result [OF 1(6) su2] have d1': "map Desc s1' = map Desc s1" by simp
  have l1': "length s1' = length s1" using d1' by (metis length_map)
  have "map Desc s1' ! u1 = map Desc s1 ! u1" by (simp only: d1')
  then have "Desc (s1' ! u1) = Desc (s1 ! u1)"
    using 1(1,2) l1' by simp
  then have du1: "Desc (s2 ! u1) = CompoundDesc UnionKind ms1"
    using 1(1,2,3) l1' by (simp add: s2 nth_append)
  \<comment> \<open>encodings and addresses of the members, in the last store\<close>
  have wd: "\<And>p. p < length s \<Longrightarrow> writeType n s1 [] p = writeType n s [] p"
  proof -
    fix p assume p: "p < length s"
    obtain msa sa where sua: "sort_unionTypes H n xs s = Some (msa, sa)"
      and s1: "s1 = sa @ [\<lparr>Desc = CompoundDesc UnionKind msa, ref = None\<rparr>]"
      using m1 by (auto simp: MakeUnionType_def buildType_def split: option.splits)
    from sort_unionTypes_result [OF rv sua] have da: "map Desc sa = map Desc s" by simp
    have la: "length sa = length s" using da by (metis length_map)
    have cla: "closed_store sa" using cl closed_store_Desc_cong [OF da] by simp
    show "writeType n s1 [] p = writeType n s [] p"
      using writeType_extend [OF cla, of p] p la writeType_Desc_cong [OF da, of n "[]" p]
      by (simp add: s1)
  qed
  have wd2: "\<And>p. p < length s1 \<Longrightarrow> writeType n s2 [] p = writeType n s1 [] p"
  proof -
    fix p assume p: "p < length s1"
    have cla: "closed_store s1'" using 1(7) closed_store_Desc_cong [OF d1'] by simp
    show "writeType n s2 [] p = writeType n s1 [] p"
      using writeType_extend [OF cla, of p] p l1' writeType_Desc_cong [OF d1', of n "[]" p]
      by (simp add: s2)
  qed
  have w: "\<And>p. p \<in> set xs \<Longrightarrow> writeType n s2 [] p = writeType n s [] p"
    using wd wd2 xs 1(2) by (simp add: less_SucI)
  have g: "\<And>p. p \<in> set xs \<Longrightarrow> getRef H n s2 p = getRef H n s p"
    using w by (simp add: getRef_def)
  have so1: "sorted (map (getRef H n s2) ms1)"
  proof -
    have eq: "map (getRef H n s2) ms1 = map (getRef H n s1) ms1"
      using 2(8) set1 xs 1(2) by (simp add: less_SucI)
    show ?thesis unfolding eq by (rule 1(5))
  qed
  have cf2: "\<forall>a \<in> set ms1. \<forall>b \<in> set ms1.
      getRef H n s2 a = getRef H n s2 b \<longrightarrow> writeType n s2 [] a = writeType n s2 [] b"
  proof (intro ballI impI)
    fix a b
    assume a: "a \<in> set ms1" and b: "b \<in> set ms1"
      and e: "getRef H n s2 a = getRef H n s2 b"
    have a': "a \<in> set xs" and b': "b \<in> set xs" using a b by (simp_all only: set1)
    have "getRef H n s a = getRef H n s b" using e by (simp only: g [OF a'] g [OF b'])
    then have "writeType n s [] a = writeType n s [] b"
      using bspec [OF bspec [OF cf a'] b'] by simp
    then show "writeType n s2 [] a = writeType n s2 [] b" by (simp only: w [OF a'] w [OF b'])
  qed
  have same: "map (writeType n s2 []) ms1 = map (writeType n s2 []) ms2"
    by (rule sorted_perm_same_keys [OF mm so1 2(5) cf2])
  have len: "length ms1 = length ms2" using mm by (rule mset_eq_length)
  have u1: "u1 < length s2" and u2: "u2 < length s2" using 1(1,2) 2(1,2) by simp_all
  have e12: "writeType (Suc n) s2 [] u1 = writeType (Suc n) s2 [] u2"
    using writeType_union [OF u1 du1, of n] writeType_union [OF u2 2(3), of n] same len by simp
  have "those (map (writeType n s2 []) ms1) \<noteq> None"
    by (rule those_map_Some) (use enc w set1 in simp)
  then obtain e where e: "writeType (Suc n) s2 [] u1 = Some e"
    using writeType_union [OF u1 du1, of n] by auto
  have rv2: "refs_valid H (Suc n) s2" using refs_valid_fuel_mono [OF 2(6)] by simp
  have "getRef H (Suc n) s2 u1 = Some (H (writeKind TypeKind @ e))"
    "getRef H (Suc n) s2 u2 = Some (H (writeKind TypeKind @ e))"
    using e e12 by (simp_all add: getRef_def del: writeType.simps)
  from Equals_content_address [OF rv2 u1 u2 this] show ?thesis using 1(1,2) 2(1) by auto
qed

section \<open>Equality of types and union types\<close>

text \<open>
  C9. For every type \<open>t\<close>, \<open>Equals\<close> of \<open>t\<close> and nil returns false and does not fail:
  neither content address is computed and the store is left as it was.
\<close>

theorem Equals_nil_is_False:
  "Equals H n t None s = Some (False, s)"
  by (simp add: Equals_def)

text \<open>
  C4. In a well-formed store (closed, with valid \<open>ref\<close> cells), for every two type
  objects \<open>t\<close> and \<open>u\<close> whose encodings exist, \<open>t.Equals(u)\<close> returns whether their content
  addresses (the digests of their canonical encodings) are equal. In particular two
  struct types constructed one after the other from the same name and fields are
  different objects and are equal; and a struct type constructed from another name and
  the same fields is not equal to the first, the digest function not colliding on the
  two encodings.
\<close>

theorem Equals_iff_content_address:
  assumes "closed_store s" and "refs_valid H n s"
  shows "(t < length s \<and> u < length s \<and> getRef H n s t = Some rt \<and> getRef H n s u = Some ru
           \<longrightarrow> (\<exists>s'. Equals H n t (Some u) s = Some (rt = ru, s')))
       \<and> ((\<forall>x \<in> set flds. snd x < length s)
            \<and> MakeStructType name flds s = Inr (t1, s1)
            \<and> MakeStructType name flds s1 = Inr (t2, s2)
            \<and> writeType n s2 [] t1 = Some e1
           \<longrightarrow> t1 \<noteq> t2 \<and> (\<exists>s'. Equals H n t1 (Some t2) s2 = Some (True, s')))
       \<and> ((\<forall>x \<in> set flds. snd x < length s) \<and> name \<noteq> name'
            \<and> MakeStructType name flds s = Inr (t1, s1)
            \<and> MakeStructType name' flds s1 = Inr (t3, s3)
            \<and> writeType n s3 [] t1 = Some e1' \<and> writeType n s3 [] t3 = Some e3
            \<and> inj_on H {writeKind TypeKind @ e1', writeKind TypeKind @ e3}
           \<longrightarrow> (\<exists>s'. Equals H n t1 (Some t3) s3 = Some (False, s')))"
proof (intro conjI impI)
  assume "t < length s \<and> u < length s \<and> getRef H n s t = Some rt \<and> getRef H n s u = Some ru"
  then show "\<exists>s'. Equals H n t (Some u) s = Some (rt = ru, s')"
    using Equals_content_address [OF assms(2), of t u rt ru] by blast
next
  assume a: "(\<forall>x \<in> set flds. snd x < length s)
            \<and> MakeStructType name flds s = Inr (t1, s1)
            \<and> MakeStructType name flds s1 = Inr (t2, s2)
            \<and> writeType n s2 [] t1 = Some e1"
  then have r: "t1 \<noteq> t2 \<and> (\<exists>s'. Equals H n t1 (Some t2) s2 = Some (True, s'))"
    using Equals_same_struct [OF assms, of flds name t1 s1 t2 s2 e1] by blast
  from r show "t1 \<noteq> t2" by simp
  from r show "\<exists>s'. Equals H n t1 (Some t2) s2 = Some (True, s')" by simp
next
  assume a: "(\<forall>x \<in> set flds. snd x < length s) \<and> name \<noteq> name'
            \<and> MakeStructType name flds s = Inr (t1, s1)
            \<and> MakeStructType name' flds s1 = Inr (t3, s3)
            \<and> writeType n s3 [] t1 = Some e1' \<and> writeType n s3 [] t3 = Some e3
            \<and> inj_on H {writeKind TypeKind @ e1', writeKind TypeKind @ e3}"
  then show "\<exists>s'. Equals H n t1 (Some t3) s3 = Some (False, s')"
    using Equals_renamed_struct [OF assms, of flds name t1 s1 name' t3 s3 e1' e3] by blast
qed

lemma mahType_twice: "(\<forall>x \<in> set mahFields. snd x < length init_store)
      \<and> MakeStructType ''MahStruct'' mahFields init_store = Inr (fst mahType, snd mahType)
      \<and> MakeStructType ''MahStruct'' mahFields (snd mahType) = Inr (fst mahType2, snd mahType2)
      \<and> writeType 3 (snd mahType2) [] (fst mahType)
          = Some [Uint8 8, Str ''MahStruct'', Uint32 2, Str ''Field1'', Uint8 2, Str ''Field2'', Uint8 0]"
    by code_simp

lemma yourType_encoding: "''MahStruct'' \<noteq> ''YourStruct''
      \<and> MakeStructType ''YourStruct'' mahFields (snd mahType) = Inr (fst yourType, snd yourType)
      \<and> writeType 3 (snd yourType) [] (fst mahType)
          = Some [Uint8 8, Str ''MahStruct'', Uint32 2, Str ''Field1'', Uint8 2, Str ''Field2'', Uint8 0]
      \<and> writeType 3 (snd yourType) [] (fst yourType)
          = Some [Uint8 8, Str ''YourStruct'', Uint32 2, Str ''Field1'', Uint8 2, Str ''Field2'', Uint8 0]"
  by code_simp

lemma mah_your_digests: "demo_hash (writeKind TypeKind @ [Uint8 8, Str ''MahStruct'', Uint32 2, Str ''Field1'', Uint8 2, Str ''Field2'', Uint8 0])
   \<noteq> demo_hash (writeKind TypeKind @ [Uint8 8, Str ''YourStruct'', Uint32 2, Str ''Field1'', Uint8 2, Str ''Field2'', Uint8 0])"
  by code_simp

theorem Equals_iff_content_address_witness:
  "(\<exists>s'. Equals demo_hash 3 BoolType (Some NumberType) init_store = Some (False, s'))
   \<and> (\<exists>s'. Equals demo_hash 3 typeForType (Some TypeType) init_store = Some (True, s'))
   \<and> fst mahType \<noteq> fst mahType2
   \<and> (\<exists>s'. Equals demo_hash 3 (fst mahType) (Some (fst mahType2)) (snd mahType2) = Some (True, s'))
   \<and> (\<exists>s'. Equals demo_hash 3 (fst mahType) (Some (fst yourType)) (snd yourType) = Some (False, s'))"
proof -
  let ?e1 = "[Uint8 8, Str ''MahStruct'', Uint32 2, Str ''Field1'', Uint8 2, Str ''Field2'', Uint8 0]"
  let ?e3 = "[Uint8 8, Str ''YourStruct'', Uint32 2, Str ''Field1'', Uint8 2, Str ''Field2'', Uint8 0]"
  have c: "closed_store init_store" by code_simp
  have r: "refs_valid demo_hash 3 init_store" by code_simp
  have p1: "BoolType < length init_store \<and> NumberType < length init_store
      \<and> getRef demo_hash 3 init_store BoolType = Some ''aaaaaaaaa..''
      \<and> getRef demo_hash 3 init_store NumberType = Some ''aaaaaaaaa.a.''"
    by code_simp
  have p2: "typeForType < length init_store \<and> TypeType < length init_store
      \<and> getRef demo_hash 3 init_store typeForType = Some ''aaaaaaaaa.aaaaaaaaa.''
      \<and> getRef demo_hash 3 init_store TypeType = Some ''aaaaaaaaa.aaaaaaaaa.''"
    by code_simp
  have inj: "inj_on demo_hash {writeKind TypeKind @ ?e1, writeKind TypeKind @ ?e3}"
    using mah_your_digests by (simp add: inj_on_def)
  have p4: "(\<forall>x \<in> set mahFields. snd x < length init_store) \<and> ''MahStruct'' \<noteq> ''YourStruct''
      \<and> MakeStructType ''MahStruct'' mahFields init_store = Inr (fst mahType, snd mahType)
      \<and> MakeStructType ''YourStruct'' mahFields (snd mahType) = Inr (fst yourType, snd yourType)
      \<and> writeType 3 (snd yourType) [] (fst mahType) = Some ?e1
      \<and> writeType 3 (snd yourType) [] (fst yourType) = Some ?e3
      \<and> inj_on demo_hash {writeKind TypeKind @ ?e1, writeKind TypeKind @ ?e3}"
    using mahType_twice yourType_encoding inj by (intro conjI) (elim conjE, assumption)+
  note T1 = Equals_iff_content_address [OF c r, of BoolType NumberType "''aaaaaaaaa..''" "''aaaaaaaaa.a.''"]
  note T2 = Equals_iff_content_address [OF c r, of typeForType TypeType
      "''aaaaaaaaa.aaaaaaaaa.''" "''aaaaaaaaa.aaaaaaaaa.''"]
  note T3 = Equals_iff_content_address [OF c r, of _ _ _ _ mahFields "''MahStruct''"
      "fst mahType" "snd mahType" "fst mahType2" "snd mahType2" ?e1
      "''YourStruct''" "fst yourType" "snd yourType" ?e1 ?e3]
  have a: "\<exists>s'. Equals demo_hash 3 BoolType (Some NumberType) init_store
            = Some (''aaaaaaaaa..'' = ''aaaaaaaaa.a.'', s')"
    by (rule T1 [THEN conjunct1, THEN mp, OF p1])
  have b: "\<exists>s'. Equals demo_hash 3 typeForType (Some TypeType) init_store
            = Some (''aaaaaaaaa.aaaaaaaaa.'' = ''aaaaaaaaa.aaaaaaaaa.'', s')"
    by (rule T2 [THEN conjunct1, THEN mp, OF p2])
  note d = T3 [THEN conjunct2, THEN conjunct1, THEN mp, OF mahType_twice]
  note e = T3 [THEN conjunct2, THEN conjunct2, THEN mp, OF p4]
  from a b d e show ?thesis by simp
qed

text \<open>
  C3 (amended). In a well-formed store, for every list of member types whose encodings
  exist, \<open>MakeUnionType\<close> returns a union type whose member list is a permutation of the
  list given (a member given twice is kept twice) in ascending order of the members'
  content addresses; and applied to a permutation of the list it returns another
  object that is equal to the first, the digest function not colliding on the members.
\<close>

theorem MakeUnionType_sorts_members:
  assumes cl: "closed_store s" and rv: "refs_valid H n s"
    and xs: "\<forall>p \<in> set xs. p < length s"
    and enc: "\<forall>p \<in> set xs. writeType n s [] p \<noteq> None"
    and perm: "mset ys = mset xs"
  shows "\<exists>u1 s1 ms1 u2 s2 ms2.
           MakeUnionType H n xs s = Some (u1, s1)
         \<and> Desc (s1 ! u1) = CompoundDesc UnionKind ms1
         \<and> mset ms1 = mset xs \<and> sorted (map (getRef H n s1) ms1)
         \<and> MakeUnionType H n ys s1 = Some (u2, s2)
         \<and> Desc (s2 ! u2) = CompoundDesc UnionKind ms2
         \<and> mset ms2 = mset xs \<and> sorted (map (getRef H n s2) ms2)
         \<and> u1 \<noteq> u2
         \<and> ((\<forall>a \<in> set xs. \<forall>b \<in> set xs.
                getRef H n s a = getRef H n s b \<longrightarrow> writeType n s [] a = writeType n s [] b)
              \<longrightarrow> (\<exists>s3. Equals H (Suc n) u1 (Some u2) s2 = Some (True, s3)))"
proof -
  have g: "\<forall>p \<in> set xs. p < length s \<and> getRef H n s p \<noteq> None"
    using xs enc by (simp add: getRef_def)
  from MakeUnionType_total [OF rv g] obtain u1 s1 where m1: "MakeUnionType H n xs s = Some (u1, s1)"
    by blast
  from MakeUnionType_result [OF rv cl xs m1] obtain ms1 where
    1: "u1 = length s" "length s1 = Suc (length s)" "Desc (s1 ! u1) = CompoundDesc UnionKind ms1"
    "mset ms1 = mset xs" "sorted (map (getRef H n s1) ms1)" "refs_valid H n s1" "closed_store s1"
    "\<forall>p < length s. getRef H n s1 p = getRef H n s p"
    by (elim exE conjE) (rule that, assumption+)
  have setys: "set ys = set xs" using perm by (rule mset_eq_setD)
  have ys: "\<forall>p \<in> set ys. p < length s1" using xs 1(2) by (simp add: setys less_SucI)
  have g1: "\<forall>p \<in> set ys. p < length s1 \<and> getRef H n s1 p \<noteq> None"
  proof
    fix p assume "p \<in> set ys"
    then have p: "p \<in> set xs" by (simp only: setys)
    then have "p < length s" "getRef H n s p \<noteq> None" using g by simp_all
    then show "p < length s1 \<and> getRef H n s1 p \<noteq> None" using 1(2,8) by simp
  qed
  from MakeUnionType_total [OF 1(6) g1] obtain u2 s2 where
    m2: "MakeUnionType H n ys s1 = Some (u2, s2)"
    by blast
  from MakeUnionType_result [OF 1(6,7) ys m2] obtain ms2 where
    2: "u2 = length s1" "Desc (s2 ! u2) = CompoundDesc UnionKind ms2"
    "mset ms2 = mset ys" "sorted (map (getRef H n s2) ms2)"
    by (elim exE conjE) (rule that, assumption+)
  have ne: "u1 \<noteq> u2" using 1(1,2) 2(1) by simp
  have ms2: "mset ms2 = mset xs" by (simp only: 2(3) perm)
  have eq: "(\<forall>a \<in> set xs. \<forall>b \<in> set xs.
                getRef H n s a = getRef H n s b \<longrightarrow> writeType n s [] a = writeType n s [] b)
              \<longrightarrow> (\<exists>s3. Equals H (Suc n) u1 (Some u2) s2 = Some (True, s3))"
  proof
    assume cf: "\<forall>a \<in> set xs. \<forall>b \<in> set xs.
                getRef H n s a = getRef H n s b \<longrightarrow> writeType n s [] a = writeType n s [] b"
    from MakeUnionType_permutation [OF rv cl xs enc cf perm m1 m2]
    show "\<exists>s3. Equals H (Suc n) u1 (Some u2) s2 = Some (True, s3)" by (rule conjunct2)
  qed
  show ?thesis
    using m1 1(3,4,5) m2 2(2) ms2 2(4) ne eq
    by (intro exI [of _ u1] exI [of _ s1] exI [of _ ms1] exI [of _ u2] exI [of _ s2]
        exI [of _ ms2] conjI)
qed

theorem MakeUnionType_sorts_members_witness:
  "MakeUnionType demo_hash 2 [StringType, BoolType, NumberType] init_store = Some unionA
   \<and> MakeUnionType demo_hash 2 [NumberType, StringType, BoolType] (snd unionA) = Some unionB
   \<and> Desc (snd unionA ! fst unionA) = CompoundDesc UnionKind [BoolType, NumberType, StringType]
   \<and> Desc (snd unionB ! fst unionB) = CompoundDesc UnionKind [BoolType, NumberType, StringType]
   \<and> (\<exists>s3. Equals demo_hash 3 (fst unionA) (Some (fst unionB)) (snd unionB) = Some (True, s3))"
proof -
  let ?xs = "[StringType, BoolType, NumberType]"
  let ?ys = "[NumberType, StringType, BoolType]"
  have c: "closed_store init_store" by code_simp
  have r: "refs_valid demo_hash 2 init_store" by code_simp
  have x: "\<forall>p \<in> set ?xs. p < length init_store" by code_simp
  have e: "\<forall>p \<in> set ?xs. writeType 2 init_store [] p \<noteq> None" by code_simp
  have p: "mset ?ys = mset ?xs" by simp
  have cf: "\<forall>a \<in> set ?xs. \<forall>b \<in> set ?xs. getRef demo_hash 2 init_store a = getRef demo_hash 2 init_store b
       \<longrightarrow> writeType 2 init_store [] a = writeType 2 init_store [] b"
    by code_simp
  have a: "MakeUnionType demo_hash 2 ?xs init_store = Some unionA" by code_simp
  have b: "MakeUnionType demo_hash 2 ?ys (snd unionA) = Some unionB" by code_simp
  have da: "Desc (snd unionA ! fst unionA) = CompoundDesc UnionKind [BoolType, NumberType, StringType]"
    by code_simp
  have db: "Desc (snd unionB ! fst unionB) = CompoundDesc UnionKind [BoolType, NumberType, StringType]"
    by code_simp
  from MakeUnionType_sorts_members [OF c r x e p] obtain u1 s1 u2 s2 where
    m1: "MakeUnionType demo_hash 2 ?xs init_store = Some (u1, s1)"
    and m2: "MakeUnionType demo_hash 2 ?ys s1 = Some (u2, s2)"
    and eq: "(\<forall>a \<in> set ?xs. \<forall>b \<in> set ?xs. getRef demo_hash 2 init_store a = getRef demo_hash 2 init_store b
       \<longrightarrow> writeType 2 init_store [] a = writeType 2 init_store [] b)
       \<longrightarrow> (\<exists>s3. Equals demo_hash (Suc 2) u1 (Some u2) s2 = Some (True, s3))"
    by (elim exE conjE) (rule that, assumption+)
  from m1 a have ua: "unionA = (u1, s1)" by simp
  from b have "MakeUnionType demo_hash 2 ?ys s1 = Some unionB" by (simp only: ua snd_conv)
  then have "Some (u2, s2) = Some unionB" by (simp only: m2)
  then have ub: "unionB = (u2, s2)" by simp
  from eq cf have "\<exists>s3. Equals demo_hash (Suc 2) u1 (Some u2) s2 = Some (True, s3)" by (rule mp)
  then have "\<exists>s3. Equals demo_hash 3 (fst unionA) (Some (fst unionB)) (snd unionB) = Some (True, s3)"
    by (simp add: ua ub eval_nat_numeral)
  with a b da db show ?thesis by (intro conjI)
qed

text \<open>
  C3 as stated fails: \<open>MakeUnionType(Bool, Bool)\<close> has two members of one content
  address, and is not equal to \<open>MakeUnionType(Bool)\<close>.
\<close>

theorem MakeUnionType_keeps_duplicates:
  "MakeUnionType demo_hash 2 [BoolType, BoolType] init_store = Some boolBoolUnion
   \<and> Desc (snd boolBoolUnion ! fst boolBoolUnion) = CompoundDesc UnionKind [BoolType, BoolType]
   \<and> \<not> distinct (map (getRef demo_hash 2 (snd boolBoolUnion)) [BoolType, BoolType])
   \<and> MakeUnionType demo_hash 2 [BoolType] (snd boolBoolUnion) = Some boolUnion
   \<and> Desc (snd boolUnion ! fst boolUnion) = CompoundDesc UnionKind [BoolType]
   \<and> map_option fst (Equals demo_hash 3 (fst boolBoolUnion) (Some (fst boolUnion)) (snd boolUnion))
       = Some False"
  by code_simp

section \<open>The round trip of types\<close>

lemma kindOfCode_kindCode [simp]: "kindOfCode (kindCode k) = Some k"
  by (cases k) (simp_all add: kindOfCode_def)

lemma readKind_writeKind [simp]: "readKind (writeKind k @ a) = Some (k, a)"
  by (simp add: readKind_def writeKind_def)

lemma indexOfType_None: "indexOfType p ps = None \<longleftrightarrow> p \<notin> set ps"
  by (induction ps) auto

lemma indexOfType_Some_less: "indexOfType p ps = Some i \<Longrightarrow> i < length ps"
  by (induction ps arbitrary: i) (auto split: if_splits)

lemma indexOfType_nth: "distinct ps \<Longrightarrow> i < length ps \<Longrightarrow> indexOfType (ps ! i) ps = Some i"
proof (induction ps arbitrary: i)
  case Nil
  then show ?case by simp
next
  case (Cons q qs)
  show ?case
  proof (cases i)
    case 0
    then show ?thesis by simp
  next
    case (Suc j)
    with Cons.prems have "qs ! j \<in> set qs" "q \<notin> set qs" by simp_all
    then have "qs ! j \<noteq> q" by blast
    with Cons Suc show ?thesis by simp
  qed
qed

lemma types_okD: "types_ok s \<Longrightarrow> p < length s \<Longrightarrow> desc_ok (Desc (s ! p))"
  by (simp add: types_ok_def list_all_length)

lemma prims_ok_Desc:
  assumes "prims_ok s" "p < length init_store"
  shows "p < length s \<and> Desc (s ! p) = Desc (init_store ! p)"
proof -
  from assms have l: "p < length s" by (simp add: prims_ok_def)
  have e: "map Desc (take (length init_store) s) = map Desc init_store"
    using assms(1) by (simp add: prims_ok_def)
  have "map Desc (take (length init_store) s) ! p = map Desc init_store ! p"
    by (simp only: e)
  moreover have le: "length init_store \<le> length s"
    using assms(1) by (simp add: prims_ok_def)
  have "map Desc (take (length init_store) s) ! p = Desc (s ! p)"
    using assms(2) le by simp
  moreover have "map Desc init_store ! p = Desc (init_store ! p)"
    using assms(2) by simp
  ultimately show ?thesis using l by simp
qed

lemma length_init_store [simp]: "length init_store = 7"
  by (simp add: init_store_def makePrimitiveType_def buildType_def)

lemma MakePrimitiveType_writes:
  assumes "isPrimitiveKind k" "prims_ok s"
  shows "\<exists>p. MakePrimitiveType k = Inr p \<and> p < length s \<and> Desc (s ! p) = PrimitiveDesc k"
proof -
  have "\<exists>p. MakePrimitiveType k = Inr p \<and> p < length init_store
      \<and> Desc (init_store ! p) = PrimitiveDesc k"
    using assms(1)
    by (cases k)
       (simp_all add: isPrimitiveKind_def MakePrimitiveType_def init_store_def
          makePrimitiveType_def buildType_def BoolType_def NumberType_def StringType_def
          BlobType_def ValueType_def TypeType_def)
  then obtain p where p: "MakePrimitiveType k = Inr p" "p < length init_store"
    "Desc (init_store ! p) = PrimitiveDesc k"
    by blast
  from prims_ok_Desc [OF assms(2) p(2)] p show ?thesis by simp
qed

lemma rebuiltI:
  assumes "length s0 \<le> length s1" "take (length s0) s1 = s0"
    and "\<And>s3. agrees (length s0) s1 s3 \<Longrightarrow> prims_ok s3 \<Longrightarrow> pending s3 ps \<Longrightarrow> W s3"
    and "\<And>q. length s0 \<le> q \<Longrightarrow> q < length s1 \<Longrightarrow> ref (s1 ! q) = None"
  shows "rebuilt s0 s1 ps W"
  using assms by (simp add: rebuilt_def)

lemma rebuiltD:
  assumes "rebuilt s0 s1 ps W"
  shows "length s0 \<le> length s1" "take (length s0) s1 = s0"
    and "\<And>s3. agrees (length s0) s1 s3 \<Longrightarrow> prims_ok s3 \<Longrightarrow> pending s3 ps \<Longrightarrow> W s3"
    and "\<And>q. length s0 \<le> q \<Longrightarrow> q < length s1 \<Longrightarrow> ref (s1 ! q) = None"
  using assms by (simp_all add: rebuilt_def)

lemma take_nth_eq: "take k s2 = s1 \<Longrightarrow> q < k \<Longrightarrow> q < length s2 \<Longrightarrow> s2 ! q = s1 ! q"
  by (metis nth_take)

lemma rebuilt_refs_trans:
  assumes 1: "\<And>q. length s0 \<le> q \<Longrightarrow> q < length s1 \<Longrightarrow> ref (s1 ! q) = None"
    and 2: "\<And>q. length s1 \<le> q \<Longrightarrow> q < length s2 \<Longrightarrow> ref (s2 ! q) = None"
    and t: "take (length s1) s2 = s1" and l: "length s1 \<le> length s2"
    and q: "length s0 \<le> q" "q < length s2"
  shows "ref (s2 ! q) = None"
proof (cases "q < length s1")
  case True
  then have "s2 ! q = s1 ! q" using take_nth_eq [OF t] l by simp
  then show ?thesis using 1 [OF q(1) True] by simp
next
  case False
  then show ?thesis using 2 q(2) by simp
qed

lemma agrees_mono:
  assumes "agrees lo s2 s3" "lo \<le> lo'" "length s1 \<le> length s2" "take (length s1) s2 = s1"
  shows "agrees lo' s1 s3"
proof -
  have "\<And>q. q < length s1 \<Longrightarrow> s2 ! q = s1 ! q"
  proof -
    fix q assume q: "q < length s1"
    have "take (length s1) s2 ! q = s2 ! q" using q by simp
    then show "s2 ! q = s1 ! q" by (simp only: assms(4))
  qed
  then show ?thesis using assms(1,2,3) by (auto simp: agrees_def)
qed

lemma prims_ok_append: "prims_ok s \<Longrightarrow> prims_ok (s @ ext)"
  by (simp add: prims_ok_def)

lemma prims_ok_take:
  assumes "prims_ok s0" "length s0 \<le> length s1" "take (length s0) s1 = s0"
  shows "prims_ok s1"
proof -
  have "s1 = s0 @ drop (length s0) s1" using assms(3) by (metis append_take_drop_id)
  then show ?thesis using prims_ok_append [OF assms(1)] by metis
qed

lemma reads_typeD:
  assumes "reads_type n s" "writeType n s ps p = Some e" "length e \<le> f" "prims_ok s0"
    "length ps' = length ps" "distinct ps'" "\<forall>q \<in> set ps'. q < length s0"
  shows "\<exists>p' s1. readType f ps' s0 (e @ rest) = Some (p', s1, rest)
           \<and> rebuilt s0 s1 ps' (\<lambda>s3. writeType n s3 ps' p' = Some e
                \<and> (p \<notin> set ps \<longrightarrow> typeShape s3 p' = typeShape s p))"
  using assms unfolding reads_type_def by blast

lemma reads_types_step:
  assumes R: "reads_type n s"
  shows "writeTypes n s ps ts = Some e \<Longrightarrow> length e \<le> f \<Longrightarrow> prims_ok s0 \<Longrightarrow>
     length ps' = length ps \<Longrightarrow> distinct ps' \<Longrightarrow> \<forall>q \<in> set ps'. q < length s0 \<Longrightarrow>
     \<exists>ts' s1. readTypes f ps' (length ts) s0 (e @ rest) = Some (ts', s1, rest)
        \<and> length ts' = length ts
        \<and> rebuilt s0 s1 ps' (\<lambda>s3. writeTypes n s3 ps' ts' = Some e)"
proof (induction ts arbitrary: e s0 rest)
  case Nil
  then show ?case by (auto simp: rebuilt_def)
next
  case (Cons t ts)
  from Cons.prems(1) obtain a b where a: "writeType n s ps t = Some a"
    and b: "writeTypes n s ps ts = Some b" and e: "e = a @ b"
    by (auto split: option.splits)
  have la: "length a \<le> f" and lb: "length b \<le> f" using Cons.prems(2) e by simp_all
  from reads_typeD [OF R a la Cons.prems(3,4,5,6), of "b @ rest"] obtain t' s1 where
    1: "readType f ps' s0 (a @ b @ rest) = Some (t', s1, b @ rest)"
    and r1: "rebuilt s0 s1 ps' (\<lambda>s3. writeType n s3 ps' t' = Some a
                \<and> (t \<notin> set ps \<longrightarrow> typeShape s3 t' = typeShape s t))"
    by blast
  note d1 = rebuiltD [OF r1]
  have p1: "prims_ok s1" by (rule prims_ok_take [OF Cons.prems(3) d1(1,2)])
  have q1: "\<forall>q \<in> set ps'. q < length s1" using Cons.prems(6) d1(1) by auto
  from Cons.IH [OF b lb p1 Cons.prems(4,5) q1, of rest] obtain ts' s2 where
    2: "readTypes f ps' (length ts) s1 (b @ rest) = Some (ts', s2, rest)"
    and l2: "length ts' = length ts"
    and r2: "rebuilt s1 s2 ps' (\<lambda>s3. writeTypes n s3 ps' ts' = Some b)"
    by blast
  note d2 = rebuiltD [OF r2]
  have t12: "take (length s0) s2 = s0"
  proof -
    have "take (length s0) (take (length s1) s2) = take (length s0) s2"
      using d1(1) by (simp add: min_def)
    then show ?thesis by (simp only: d2(2) d1(2))
  qed
  have "rebuilt s0 s2 ps' (\<lambda>s3. writeTypes n s3 ps' (t' # ts') = Some e)"
  proof (rule rebuiltI)
    show "length s0 \<le> length s2" using d1(1) d2(1) by simp
    show "take (length s0) s2 = s0" by (rule t12)
  next
    fix s3 assume ag: "agrees (length s0) s2 s3" and pr: "prims_ok s3" and pe: "pending s3 ps'"
    have "agrees (length s0) s1 s3" by (rule agrees_mono [OF ag _ d2(1,2)]) simp
    from d1(3) [OF this pr pe] have wa: "writeType n s3 ps' t' = Some a" by (rule conjunct1)
    have "agrees (length s1) s2 s3" using ag d1(1) by (auto simp: agrees_def)
    from d2(3) [OF this pr pe] have wb: "writeTypes n s3 ps' ts' = Some b" .
    show "writeTypes n s3 ps' (t' # ts') = Some e" using wa wb e by simp
  next
    fix q assume q: "length s0 \<le> q" "q < length s2"
    show "ref (s2 ! q) = None"
    proof (rule rebuilt_refs_trans [OF _ _ d2(2) d2(1) q])
      show "\<And>q. length s0 \<le> q \<Longrightarrow> q < length s1 \<Longrightarrow> ref (s1 ! q) = None" by (rule d1(4))
      show "\<And>q. length s1 \<le> q \<Longrightarrow> q < length s2 \<Longrightarrow> ref (s2 ! q) = None" by (rule d2(4))
    qed
  qed
  then show ?case using 1 2 l2 e by simp
qed

lemma reads_fields_step:
  assumes R: "reads_type n s"
  shows "writeFields n s ps fs = Some e \<Longrightarrow> length e \<le> f \<Longrightarrow> prims_ok s0 \<Longrightarrow>
     length ps' = length ps \<Longrightarrow> distinct ps' \<Longrightarrow> \<forall>q \<in> set ps'. q < length s0 \<Longrightarrow>
     \<exists>fs' s1. readFields f ps' (length fs) s0 (e @ rest) = Some (fs', s1, rest)
        \<and> map fst fs' = map fst fs
        \<and> rebuilt s0 s1 ps' (\<lambda>s3. writeFields n s3 ps' fs' = Some e)"
proof (induction fs arbitrary: e s0 rest)
  case Nil
  then show ?case by (auto simp: rebuilt_def)
next
  case (Cons fl fs)
  obtain name t where fl: "fl = (name, t)" by (cases fl)
  from Cons.prems(1) fl obtain a b where a: "writeType n s ps t = Some a"
    and b: "writeFields n s ps fs = Some b" and e: "e = Str name # a @ b"
    by (auto split: option.splits)
  have la: "length a \<le> f" and lb: "length b \<le> f" using Cons.prems(2) e by simp_all
  from reads_typeD [OF R a la Cons.prems(3,4,5,6), of "b @ rest"] obtain t' s1 where
    1: "readType f ps' s0 (a @ b @ rest) = Some (t', s1, b @ rest)"
    and r1: "rebuilt s0 s1 ps' (\<lambda>s3. writeType n s3 ps' t' = Some a
                \<and> (t \<notin> set ps \<longrightarrow> typeShape s3 t' = typeShape s t))"
    by blast
  note d1 = rebuiltD [OF r1]
  have p1: "prims_ok s1" by (rule prims_ok_take [OF Cons.prems(3) d1(1,2)])
  have q1: "\<forall>q \<in> set ps'. q < length s1" using Cons.prems(6) d1(1) by auto
  from Cons.IH [OF b lb p1 Cons.prems(4,5) q1, of rest] obtain fs' s2 where
    2: "readFields f ps' (length fs) s1 (b @ rest) = Some (fs', s2, rest)"
    and l2: "map fst fs' = map fst fs"
    and r2: "rebuilt s1 s2 ps' (\<lambda>s3. writeFields n s3 ps' fs' = Some b)"
    by blast
  note d2 = rebuiltD [OF r2]
  have t12: "take (length s0) s2 = s0"
  proof -
    have "take (length s0) (take (length s1) s2) = take (length s0) s2"
      using d1(1) by (simp add: min_def)
    then show ?thesis by (simp only: d2(2) d1(2))
  qed
  have "rebuilt s0 s2 ps' (\<lambda>s3. writeFields n s3 ps' ((name, t') # fs') = Some e)"
  proof (rule rebuiltI)
    show "length s0 \<le> length s2" using d1(1) d2(1) by simp
    show "take (length s0) s2 = s0" by (rule t12)
  next
    fix s3 assume ag: "agrees (length s0) s2 s3" and pr: "prims_ok s3" and pe: "pending s3 ps'"
    have "agrees (length s0) s1 s3" by (rule agrees_mono [OF ag _ d2(1,2)]) simp
    from d1(3) [OF this pr pe] have wa: "writeType n s3 ps' t' = Some a" by (rule conjunct1)
    have "agrees (length s1) s2 s3" using ag d1(1) by (auto simp: agrees_def)
    from d2(3) [OF this pr pe] have wb: "writeFields n s3 ps' fs' = Some b" .
    show "writeFields n s3 ps' ((name, t') # fs') = Some e" using wa wb e by simp
  next
    fix q assume q: "length s0 \<le> q" "q < length s2"
    show "ref (s2 ! q) = None"
    proof (rule rebuilt_refs_trans [OF _ _ d2(2) d2(1) q])
      show "\<And>q. length s0 \<le> q \<Longrightarrow> q < length s1 \<Longrightarrow> ref (s1 ! q) = None" by (rule d1(4))
      show "\<And>q. length s1 \<le> q \<Longrightarrow> q < length s2 \<Longrightarrow> ref (s2 ! q) = None" by (rule d2(4))
    qed
  qed
  then show ?case using 1 2 l2 e fl by simp
qed

lemma readType_prim:
  "isPrimitiveKind k \<Longrightarrow> MakePrimitiveType k = Inr p \<Longrightarrow>
     readType (Suc f) ps s (writeKind k @ a) = Some (p, s, a)"
  by (cases k) (simp_all add: isPrimitiveKind_def)

lemma readType_compound1:
  "k = ListKind \<or> k = SetKind \<or> k = RefKind \<Longrightarrow> readTypes f ps 1 s a = Some (es, s1, a2) \<Longrightarrow>
     readType (Suc f) ps s (writeKind k @ a)
       = Some (length s1, s1 @ [\<lparr>Desc = CompoundDesc k es, ref = None\<rparr>], a2)"
  by (auto simp: buildType_def simp del: readTypes.simps)

lemma readType_map:
  "readTypes f ps 2 s a = Some (es, s1, a2) \<Longrightarrow>
     readType (Suc f) ps s (writeKind MapKind @ a)
       = Some (length s1, s1 @ [\<lparr>Desc = CompoundDesc MapKind es, ref = None\<rparr>], a2)"
  by (simp add: buildType_def del: readTypes.simps)

lemma readType_union:
  "readTypes f ps len s a = Some (es, s1, a2) \<Longrightarrow>
     readType (Suc f) ps s (writeKind UnionKind @ Uint32 len # a)
       = Some (length s1, s1 @ [\<lparr>Desc = CompoundDesc UnionKind es, ref = None\<rparr>], a2)"
  by (simp add: buildType_def del: readTypes.simps)

lemma readType_struct:
  "readFields f (length s # ps) cnt (s @ [\<lparr>Desc = StructDesc name [], ref = None\<rparr>]) a
      = Some (flds, s1, a2) \<Longrightarrow>
   verifyFieldNames flds = Inr () \<Longrightarrow>
     readType (Suc f) ps s (writeKind StructKind @ Str name # Uint32 cnt # a)
       = Some (length s, s1[length s := (s1 ! length s)\<lparr>Desc := StructDesc name flds\<rparr>], a2)"
  by (simp add: buildType_def del: readFields.simps)

lemma readType_cycle:
  "i < length ps \<Longrightarrow>
     readType (Suc f) ps s (writeKind CycleKind @ Uint32 i # a) = Some (ps ! i, s, a)"
  by simp

lemma writeType_prim:
  "p < length s \<Longrightarrow> Desc (s ! p) = PrimitiveDesc k \<Longrightarrow> isPrimitiveKind k \<Longrightarrow>
     writeType (Suc n) s ps p = Some (writeKind k)"
  by simp

lemma writeType_compound:
  "p < length s \<Longrightarrow> Desc (s ! p) = CompoundDesc k es \<Longrightarrow>
   k = ListKind \<or> k = MapKind \<or> k = RefKind \<or> k = SetKind \<Longrightarrow>
     writeType (Suc n) s ps p = map_option (\<lambda>ts. writeKind k @ ts) (writeTypes n s ps es)"
  by auto

lemma writeType_union_any:
  "p < length s \<Longrightarrow> Desc (s ! p) = CompoundDesc UnionKind es \<Longrightarrow>
     writeType (Suc n) s ps p
       = map_option (\<lambda>ts. writeKind UnionKind @ [Uint32 (length es)] @ ts) (writeTypes n s ps es)"
  by simp

lemma writeType_struct:
  "p < length s \<Longrightarrow> Desc (s ! p) = StructDesc name flds \<Longrightarrow> indexOfType p ps = None \<Longrightarrow>
     writeType (Suc n) s ps p
       = map_option (\<lambda>ts. writeKind StructKind @ [Str name, Uint32 (length flds)] @ ts)
           (writeFields n s (p # ps) (IterFields flds))"
  by simp

lemma writeType_cycle:
  "p < length s \<Longrightarrow> Desc (s ! p) = StructDesc name flds \<Longrightarrow> indexOfType p ps = Some i \<Longrightarrow>
     writeType (Suc n) s ps p = Some (writeKind CycleKind @ [Uint32 i])"
  by simp

lemma verifyFieldNames_names:
  "verifyFieldNames fs = Inr () \<longleftrightarrow> (\<forall>fn \<in> set (map fst fs). fieldNameRe_MatchString fn)"
  by (rule verifyFieldNames_Inr)

lemma verifyFieldNames_cong:
  assumes "set (map fst fs') = set (map fst fs)"
  shows "verifyFieldNames fs' = Inr () \<longleftrightarrow> verifyFieldNames fs = Inr ()"
  unfolding verifyFieldNames_names by (simp only: assms)

lemma IterFields_sorted_id:
  assumes "map fst fs' = map fst (IterFields fs)"
  shows "IterFields fs' = fs'"
proof -
  have "sorted (map fst (IterFields fs))" by (simp add: IterFields_def)
  then have "sorted (map fst fs')" by (simp only: assms)
  then show ?thesis by (simp add: IterFields_def sort_key_id_if_sorted)
qed

lemma length_IterFields [simp]: "length (IterFields fs) = length fs"
  by (simp add: IterFields_def)

lemma agrees_nth:
  "agrees lo s1 s3 \<Longrightarrow> lo \<le> q \<Longrightarrow> q < length s1 \<Longrightarrow> q < length s3 \<and> Desc (s3 ! q) = Desc (s1 ! q)"
  by (auto simp: agrees_def)

lemma reads_type_Suc:
  assumes ok: "types_ok s" and R: "reads_type n s"
  shows "reads_type (Suc n) s"
  unfolding reads_type_def
proof (intro allI impI)
  fix ps p e f s0 ps' rest
  assume w: "writeType (Suc n) s ps p = Some e" and lf: "length e \<le> f" and pr: "prims_ok s0"
    and lp: "length ps' = length ps" and di: "distinct ps'" and qs: "\<forall>q \<in> set ps'. q < length s0"
  from w have p: "p < length s" by (simp split: if_splits)
  note dok = types_okD [OF ok p]
  let ?goal = "\<exists>p' s1. readType f ps' s0 (e @ rest) = Some (p', s1, rest)
           \<and> rebuilt s0 s1 ps' (\<lambda>s3. writeType (Suc n) s3 ps' p' = Some e
                \<and> (p \<notin> set ps \<longrightarrow> typeShape s3 p' = typeShape s p))"
  show ?goal
  proof (cases "Desc (s ! p)")
    case (PrimitiveDesc k)
    with w p have k: "isPrimitiveKind k" and e: "e = writeKind k" by (simp_all split: if_splits)
    from e lf obtain f' where f: "f = Suc f'" by (cases f) (simp_all add: writeKind_def)
    from MakePrimitiveType_writes [OF k pr] obtain p' where
      p': "MakePrimitiveType k = Inr p'" by blast
    have rd: "readType f ps' s0 (e @ rest) = Some (p', s0, rest)"
      unfolding f e by (rule readType_prim [OF k p'])
    have "rebuilt s0 s0 ps' (\<lambda>s3. writeType (Suc n) s3 ps' p' = Some e
                \<and> (p \<notin> set ps \<longrightarrow> typeShape s3 p' = typeShape s p))"
    proof (rule rebuiltI)
      fix s3 assume "prims_ok s3"
      from MakePrimitiveType_writes [OF k this] p'
      have 3: "p' < length s3" "Desc (s3 ! p') = PrimitiveDesc k" by simp_all
      then have "writeType (Suc n) s3 ps' p' = Some e"
        unfolding e by (rule writeType_prim) (rule k)
      moreover have "typeShape s3 p' = typeShape s p"
        using 3 PrimitiveDesc by (simp add: typeShape_def)
      ultimately show "writeType (Suc n) s3 ps' p' = Some e
                \<and> (p \<notin> set ps \<longrightarrow> typeShape s3 p' = typeShape s p)" by simp
    qed simp_all
    with rd show ?thesis by blast
  next
    case (CompoundDesc k es)
    show ?thesis
    proof (cases "k = UnionKind")
      case True
      from w p CompoundDesc True obtain b where b: "writeTypes n s ps es = Some b"
        and e: "e = writeKind UnionKind @ Uint32 (length es) # b"
        by (auto simp: writeType_union_any simp del: writeType.simps)
      from e lf obtain f' where f: "f = Suc f'" and lb: "length b \<le> f'"
        by (cases f) (simp_all add: writeKind_def)
      from reads_types_step [OF R b lb pr lp di qs, of rest] obtain es' s1 where
        1: "readTypes f' ps' (length es) s0 (b @ rest) = Some (es', s1, rest)"
        and l1: "length es' = length es"
        and r1: "rebuilt s0 s1 ps' (\<lambda>s3. writeTypes n s3 ps' es' = Some b)"
        by blast
      note d1 = rebuiltD [OF r1]
      let ?s2 = "s1 @ [\<lparr>Desc = CompoundDesc UnionKind es', ref = None\<rparr>]"
      have rd: "readType f ps' s0 (e @ rest) = Some (length s1, ?s2, rest)"
        unfolding f e using readType_union [OF 1] by simp
      have "rebuilt s0 ?s2 ps' (\<lambda>s3. writeType (Suc n) s3 ps' (length s1) = Some e
                \<and> (p \<notin> set ps \<longrightarrow> typeShape s3 (length s1) = typeShape s p))"
      proof (rule rebuiltI)
        show "length s0 \<le> length ?s2" using d1(1) by simp
        show "take (length s0) ?s2 = s0" using d1(1,2) by simp
      next
        fix s3 assume ag: "agrees (length s0) ?s2 s3" and pr3: "prims_ok s3"
          and pe: "pending s3 ps'"
        from agrees_nth [OF ag, of "length s1"] d1(1)
        have n3: "length s1 < length s3" "Desc (s3 ! length s1) = CompoundDesc UnionKind es'"
          by simp_all
        have "agrees (length s0) s1 s3" by (rule agrees_mono [OF ag]) simp_all
        from d1(3) [OF this pr3 pe] have "writeTypes n s3 ps' es' = Some b" .
        then have "writeType (Suc n) s3 ps' (length s1) = Some e"
          using writeType_union_any [OF n3, of n ps'] l1 e by simp
        moreover have "typeShape s3 (length s1) = typeShape s p"
          using n3 CompoundDesc True by (simp add: typeShape_def)
        ultimately show "writeType (Suc n) s3 ps' (length s1) = Some e
                \<and> (p \<notin> set ps \<longrightarrow> typeShape s3 (length s1) = typeShape s p)" by simp
      next
        fix q assume "length s0 \<le> q" "q < length ?s2"
        then show "ref (?s2 ! q) = None" using d1(4) [of q] by (cases "q < length s1") (simp_all add: nth_append)
      qed
      with rd show ?thesis by blast
    next
      case False
      with w p CompoundDesc have kk: "k = ListKind \<or> k = MapKind \<or> k = RefKind \<or> k = SetKind"
        by (auto split: if_splits)
      from w p CompoundDesc kk obtain b where b: "writeTypes n s ps es = Some b"
        and e: "e = writeKind k @ b"
        by (auto simp: writeType_compound simp del: writeType.simps)
      from e lf obtain f' where f: "f = Suc f'" and lb: "length b \<le> f'"
        by (cases f) (simp_all add: writeKind_def)
      from reads_types_step [OF R b lb pr lp di qs, of rest] obtain es' s1 where
        1: "readTypes f' ps' (length es) s0 (b @ rest) = Some (es', s1, rest)"
        and l1: "length es' = length es"
        and r1: "rebuilt s0 s1 ps' (\<lambda>s3. writeTypes n s3 ps' es' = Some b)"
        by blast
      note d1 = rebuiltD [OF r1]
      let ?s2 = "s1 @ [\<lparr>Desc = CompoundDesc k es', ref = None\<rparr>]"
      have rd: "readType f ps' s0 (e @ rest) = Some (length s1, ?s2, rest)"
      proof (cases "k = MapKind")
        case True
        with dok CompoundDesc have "length es = 2" by simp
        with 1 show ?thesis unfolding f e True using readType_map by simp
      next
        case False
        with kk have k1: "k = ListKind \<or> k = SetKind \<or> k = RefKind" by blast
        with dok CompoundDesc have "length es = 1" by auto
        with 1 show ?thesis unfolding f e using readType_compound1 [OF k1] by simp
      qed
      have "rebuilt s0 ?s2 ps' (\<lambda>s3. writeType (Suc n) s3 ps' (length s1) = Some e
                \<and> (p \<notin> set ps \<longrightarrow> typeShape s3 (length s1) = typeShape s p))"
      proof (rule rebuiltI)
        show "length s0 \<le> length ?s2" using d1(1) by simp
        show "take (length s0) ?s2 = s0" using d1(1,2) by simp
      next
        fix s3 assume ag: "agrees (length s0) ?s2 s3" and pr3: "prims_ok s3"
          and pe: "pending s3 ps'"
        from agrees_nth [OF ag, of "length s1"] d1(1)
        have n3: "length s1 < length s3" "Desc (s3 ! length s1) = CompoundDesc k es'"
          by simp_all
        have "agrees (length s0) s1 s3" by (rule agrees_mono [OF ag]) simp_all
        from d1(3) [OF this pr3 pe] have "writeTypes n s3 ps' es' = Some b" .
        then have "writeType (Suc n) s3 ps' (length s1) = Some e"
          using writeType_compound [OF n3 kk, of n ps'] e by simp
        moreover have "typeShape s3 (length s1) = typeShape s p"
          using n3 CompoundDesc by (simp add: typeShape_def)
        ultimately show "writeType (Suc n) s3 ps' (length s1) = Some e
                \<and> (p \<notin> set ps \<longrightarrow> typeShape s3 (length s1) = typeShape s p)" by simp
      next
        fix q assume "length s0 \<le> q" "q < length ?s2"
        then show "ref (?s2 ! q) = None" using d1(4) [of q] by (cases "q < length s1") (simp_all add: nth_append)
      qed
      with rd show ?thesis by blast
    qed
  next
    case (StructDesc name flds)
    show ?thesis
    proof (cases "indexOfType p ps")
      case (Some i)
      from w have e: "e = writeKind CycleKind @ [Uint32 i]"
        by (simp only: writeType_cycle [OF p StructDesc Some]) simp
      from e lf obtain f' where f: "f = Suc f'" by (cases f) (simp_all add: writeKind_def)
      have i: "i < length ps'" using indexOfType_Some_less [OF Some] lp by simp
      have rd: "readType f ps' s0 (e @ rest) = Some (ps' ! i, s0, rest)"
        unfolding f e using readType_cycle [OF i] by simp
      have pin: "p \<in> set ps" using Some indexOfType_None [of p ps] by auto
      have "rebuilt s0 s0 ps' (\<lambda>s3. writeType (Suc n) s3 ps' (ps' ! i) = Some e
                \<and> (p \<notin> set ps \<longrightarrow> typeShape s3 (ps' ! i) = typeShape s p))"
      proof (rule rebuiltI)
        fix s3 assume pe: "pending s3 ps'"
        have "ps' ! i \<in> set ps'" using i by simp
        with pe obtain nm fl where "ps' ! i < length s3" "Desc (s3 ! (ps' ! i)) = StructDesc nm fl"
          unfolding pending_def by blast
        then have "writeType (Suc n) s3 ps' (ps' ! i) = Some e"
          unfolding e by (rule writeType_cycle) (rule indexOfType_nth [OF di i])
        then show "writeType (Suc n) s3 ps' (ps' ! i) = Some e
                \<and> (p \<notin> set ps \<longrightarrow> typeShape s3 (ps' ! i) = typeShape s p)"
          using pin by simp
      qed simp_all
      with rd show ?thesis by blast
    next
      case None
      from w obtain b where b: "writeFields n s (p # ps) (IterFields flds) = Some b"
        and e: "e = writeKind StructKind @ Str name # Uint32 (length flds) # b"
        by (auto simp: writeType_struct [OF p StructDesc None] simp del: writeType.simps)
      from e lf obtain f' where f: "f = Suc f'" and lb: "length b \<le> f'"
        by (cases f) (simp_all add: writeKind_def)
      let ?p0 = "length s0"
      let ?s0' = "s0 @ [\<lparr>Desc = StructDesc name [], ref = None\<rparr>]"
      have pr0: "prims_ok ?s0'" by (rule prims_ok_append [OF pr])
      have lp0: "length (?p0 # ps') = length (p # ps)" using lp by simp
      have di0: "distinct (?p0 # ps')" using di qs by auto
      have qs0: "\<forall>q \<in> set (?p0 # ps'). q < length ?s0'" using qs by (auto intro: less_SucI)
      from reads_fields_step [OF R b lb pr0 lp0 di0 qs0, of rest] obtain fs' s1 where
        1: "readFields f' (?p0 # ps') (length (IterFields flds)) ?s0' (b @ rest) = Some (fs', s1, rest)"
        and n1: "map fst fs' = map fst (IterFields flds)"
        and r1: "rebuilt ?s0' s1 (?p0 # ps') (\<lambda>s3. writeFields n s3 (?p0 # ps') fs' = Some b)"
        by blast
      note d1 = rebuiltD [OF r1]
      have "set (map fst fs') = set (map fst flds)"
        by (simp only: n1) (simp add: IterFields_def)
      from verifyFieldNames_cong [OF this] dok StructDesc
      have v: "verifyFieldNames fs' = Inr ()" by simp
      let ?s2 = "s1[?p0 := (s1 ! ?p0)\<lparr>Desc := StructDesc name fs'\<rparr>]"
      have rd: "readType f ps' s0 (e @ rest) = Some (?p0, ?s2, rest)"
        unfolding f e using readType_struct [OF _ v, of f' s0 ps' "length flds" name "b @ rest" s1 rest] 1
        by simp
      have l01: "?p0 < length s1" using d1(1) by simp
      have lfs: "length fs' = length flds"
        using arg_cong [OF n1, of length] by simp
      have "rebuilt s0 ?s2 ps' (\<lambda>s3. writeType (Suc n) s3 ps' ?p0 = Some e
                \<and> (p \<notin> set ps \<longrightarrow> typeShape s3 ?p0 = typeShape s p))"
      proof (rule rebuiltI)
        show "length s0 \<le> length ?s2" using d1(1) by simp
        have "take (length s0) (take (length ?s0') s1) = take (length s0) s1"
          by (simp add: min_def)
        then have "take (length s0) s1 = s0" by (simp only: d1(2)) simp
        then show "take (length s0) ?s2 = s0" by simp
      next
        fix s3 assume ag: "agrees (length s0) ?s2 s3" and pr3: "prims_ok s3"
          and pe: "pending s3 ps'"
        from agrees_nth [OF ag, of ?p0] l01
        have n3: "?p0 < length s3" "Desc (s3 ! ?p0) = StructDesc name fs'"
          by simp_all
        have ag1: "agrees (length ?s0') s1 s3"
          using ag by (auto simp: agrees_def nth_list_update)
        have pe1: "pending s3 (?p0 # ps')" using pe n3 by (simp add: pending_def)
        from d1(3) [OF ag1 pr3 pe1] have wf: "writeFields n s3 (?p0 # ps') fs' = Some b" .
        have "?p0 \<notin> set ps'" using qs by auto
        then have ix: "indexOfType ?p0 ps' = None" by (simp add: indexOfType_None)
        have "writeType (Suc n) s3 ps' ?p0 = Some e"
          using writeType_struct [OF n3 ix, of n] wf IterFields_sorted_id [OF n1] lfs e
          by simp
        moreover have "typeShape s3 ?p0 = typeShape s p"
          using n3 StructDesc IterFields_sorted_id [OF n1] n1 by (simp add: typeShape_def)
        ultimately show "writeType (Suc n) s3 ps' ?p0 = Some e
                \<and> (p \<notin> set ps \<longrightarrow> typeShape s3 ?p0 = typeShape s p)" by simp
      next
        fix q assume q: "length s0 \<le> q" "q < length ?s2"
        show "ref (?s2 ! q) = None"
        proof (cases "q = ?p0")
          case True
          have "s1 ! ?p0 = ?s0' ! ?p0" using take_nth_eq [OF d1(2), of ?p0] l01 by simp
          then show ?thesis using True l01 by simp
        next
          case False
          then show ?thesis using q d1(4) [of q] by simp
        qed
      qed
      with rd show ?thesis by blast
    qed
  qed
qed

lemma reads_type_all: "types_ok s \<Longrightarrow> reads_type n s"
proof (induction n)
  case 0
  then show ?case by (simp add: reads_type_def)
next
  case (Suc n)
  then show ?case by (simp add: reads_type_Suc)
qed


lemma uniform_fuel:
  fixes P :: "nat \<Rightarrow> 'a \<Rightarrow> bool"
  assumes mono: "\<And>n m x. P n x \<Longrightarrow> n \<le> m \<Longrightarrow> P m x"
  shows "\<forall>x \<in> set xs. \<exists>n. P n x \<Longrightarrow> \<exists>n. \<forall>x \<in> set xs. P n x"
proof (induction xs)
  case Nil
  then show ?case by simp
next
  case (Cons x xs)
  then obtain n1 n2 where 1: "P n1 x" and 2: "\<forall>y \<in> set xs. P n2 y" by auto
  have "P (max n1 n2) x" by (rule mono [OF 1]) simp
  moreover have "\<forall>y \<in> set xs. P (max n1 n2) y"
  proof
    fix y assume "y \<in> set xs"
    with 2 have "P n2 y" by simp
    then show "P (max n1 n2) y" by (rule mono) simp
  qed
  ultimately show ?case by auto
qed

lemma writeTypes_all_Some:
  "\<forall>t \<in> set ts. \<exists>e. writeType n s ps t = Some e \<Longrightarrow> \<exists>e. writeTypes n s ps ts = Some e"
  by (induction ts) auto

lemma writeFields_all_Some:
  "\<forall>fl \<in> set fs. \<exists>e. writeType n s ps (snd fl) = Some e \<Longrightarrow> \<exists>e. writeFields n s ps fs = Some e"
  by (induction fs) auto

lemma encodable_writeType:
  "encodable s ps p \<Longrightarrow> \<exists>n e. writeType n s ps p = Some e"
proof (induction rule: encodable.induct)
  case (primitive p k ps)
  then have "writeType (Suc 0) s ps p = Some (writeKind k)" by (rule writeType_prim)
  then show ?case by blast
next
  case (compound p k es ps)
  have mono: "\<And>n m t. \<exists>e. writeType n s ps t = Some e \<Longrightarrow> n \<le> m
      \<Longrightarrow> \<exists>e. writeType m s ps t = Some e"
    using writeType_fuel_mono by blast
  have each: "\<forall>t \<in> set es. \<exists>n. \<exists>e. writeType n s ps t = Some e"
    using compound.IH by blast
  have "\<exists>n. \<forall>t \<in> set es. \<exists>e. writeType n s ps t = Some e"
    by (rule uniform_fuel [of "\<lambda>n t. \<exists>e. writeType n s ps t = Some e", OF mono each])
  then obtain n where "\<forall>t \<in> set es. \<exists>e. writeType n s ps t = Some e" by blast
  from writeTypes_all_Some [OF this] obtain b where b: "writeTypes n s ps es = Some b" by blast
  have "\<exists>e. writeType (Suc n) s ps p = Some e"
  proof (cases "k = UnionKind")
    case True
    with compound.hyps(1,2) have "Desc (s ! p) = CompoundDesc UnionKind es" by simp
    from writeType_union_any [OF compound.hyps(1) this, of n ps] show ?thesis
      by (simp only: b option.map) blast
  next
    case False
    with compound.hyps(3) have "k = ListKind \<or> k = MapKind \<or> k = RefKind \<or> k = SetKind"
      by blast
    from writeType_compound [OF compound.hyps(1,2) this, of n ps] show ?thesis
      by (simp only: b option.map) blast
  qed
  then show ?case by blast
next
  case (cycle p name flds ps)
  then obtain i where "indexOfType p ps = Some i"
    using indexOfType_None [of p ps] by (cases "indexOfType p ps") auto
  from writeType_cycle [OF cycle(1,2) this, of 0] show ?case by blast
next
  case (struct p name flds ps)
  have mono: "\<And>n m fl. \<exists>e. writeType n s (p # ps) (snd fl) = Some e \<Longrightarrow> n \<le> m
      \<Longrightarrow> \<exists>e. writeType m s (p # ps) (snd fl) = Some e"
    using writeType_fuel_mono by blast
  have each: "\<forall>fl \<in> set (IterFields flds). \<exists>n. \<exists>e. writeType n s (p # ps) (snd fl) = Some e"
    using struct.IH by (simp add: set_IterFields)
  have "\<exists>n. \<forall>fl \<in> set (IterFields flds). \<exists>e. writeType n s (p # ps) (snd fl) = Some e"
    by (rule uniform_fuel [of "\<lambda>n fl. \<exists>e. writeType n s (p # ps) (snd fl) = Some e", OF mono each])
  then obtain n where "\<forall>fl \<in> set (IterFields flds). \<exists>e. writeType n s (p # ps) (snd fl) = Some e"
    by blast
  from writeFields_all_Some [OF this] obtain b where
    b: "writeFields n s (p # ps) (IterFields flds) = Some b" by blast
  have "indexOfType p ps = None" using struct(3) by (simp add: indexOfType_None)
  from writeType_struct [OF struct(1,2) this, of n]
  have "writeType (Suc n) s ps p
      = Some (writeKind StructKind @ [Str name, Uint32 (length flds)] @ b)"
    by (simp only: b option.map)
  then show ?case by blast
qed

lemma writeTypes_each_Some:
  "writeTypes n s ps ts = Some e \<Longrightarrow> \<forall>t \<in> set ts. \<exists>e'. writeType n s ps t = Some e'"
  by (induction ts arbitrary: e) (auto split: option.splits)

lemma writeFields_each_Some:
  "writeFields n s ps fs = Some e \<Longrightarrow> \<forall>fl \<in> set fs. \<exists>e'. writeType n s ps (snd fl) = Some e'"
  by (induction fs arbitrary: e) (fastforce split: option.splits)+

lemma writeType_encodable:
  "writeType n s ps p = Some e \<Longrightarrow> encodable s ps p"
proof (induction n arbitrary: ps p e)
  case 0
  then show ?case by simp
next
  case (Suc n)
  from Suc.prems have p: "p < length s" by (simp split: if_splits)
  show ?case
  proof (cases "Desc (s ! p)")
    case (PrimitiveDesc k)
    with Suc.prems p have "isPrimitiveKind k" by (simp split: if_splits)
    with p PrimitiveDesc show ?thesis by (rule encodable.primitive)
  next
    case (CompoundDesc k es)
    with Suc.prems p have kk: "k = ListKind \<or> k = MapKind \<or> k = RefKind \<or> k = SetKind \<or> k = UnionKind"
      and "\<exists>b. writeTypes n s ps es = Some b"
      by (auto split: if_splits)
    then obtain b where "writeTypes n s ps es = Some b" by blast
    from writeTypes_each_Some [OF this] Suc.IH have "\<forall>t \<in> set es. encodable s ps t" by blast
    with p CompoundDesc kk show ?thesis by (rule encodable.compound)
  next
    case (StructDesc name flds)
    show ?thesis
    proof (cases "p \<in> set ps")
      case True
      with p StructDesc show ?thesis by (rule encodable.cycle)
    next
      case False
      then have ix: "indexOfType p ps = None" by (simp add: indexOfType_None)
      from Suc.prems obtain b where "writeFields n s (p # ps) (IterFields flds) = Some b"
        by (auto simp: writeType_struct [OF p StructDesc ix] simp del: writeType.simps)
      from writeFields_each_Some [OF this] Suc.IH
      have "\<forall>fl \<in> set flds. encodable s (p # ps) (snd fl)"
        by (simp add: set_IterFields) blast
      with p StructDesc False show ?thesis by (rule encodable.struct)
    qed
  qed
qed


subsection \<open>The graphs the constructors build\<close>

lemma downwardD: "downward s \<Longrightarrow> q < length s \<Longrightarrow> desc_downward (length s) q (Desc (s ! q))"
  by (simp add: downward_def list_all_iff)

lemma downwardI:
  "(\<And>q. q < length s \<Longrightarrow> desc_downward (length s) q (Desc (s ! q))) \<Longrightarrow> downward s"
  by (simp add: downward_def list_all_iff)

lemma desc_downward_mono:
  "desc_downward len q d \<Longrightarrow> len \<le> len' \<Longrightarrow> desc_downward len' q d"
  by (cases d) (auto simp: list_all_iff)



lemma downward_Desc_cong:
  assumes "map Desc s' = map Desc s" shows "downward s' = downward s"
proof -
  from assms have l: "length s' = length s" by (metis length_map)
  have "\<And>q. q < length s \<Longrightarrow> Desc (s' ! q) = Desc (s ! q)"
    using assms l by (metis nth_map)
  then show ?thesis by (simp add: downward_def list_all_iff l)
qed

lemma downward_init_store: "downward init_store"
  by code_simp

lemma downward_buildType:
  assumes d: "downward s" and n: "desc_downward (Suc (length s)) (length s) desc"
  shows "downward (snd (buildType desc s))"
proof (rule downwardI)
  fix q assume q: "q < length (snd (buildType desc s))"
  show "desc_downward (length (snd (buildType desc s))) q (Desc (snd (buildType desc s) ! q))"
  proof (cases "q < length s")
    case True
    from desc_downward_mono [OF downwardD [OF d True], of "Suc (length s)"]
    show ?thesis using True by (simp add: buildType_def nth_append)
  next
    case False
    with q have "q = length s" by (simp add: buildType_def)
    then show ?thesis using n by (simp add: buildType_def)
  qed
qed

lemma downward_MakeListType:
  "downward s \<Longrightarrow> t < length s \<Longrightarrow> downward (snd (MakeListType t s))"
  unfolding MakeListType_def by (rule downward_buildType) simp_all

lemma downward_MakeSetType:
  "downward s \<Longrightarrow> t < length s \<Longrightarrow> downward (snd (MakeSetType t s))"
  unfolding MakeSetType_def by (rule downward_buildType) simp_all

lemma downward_MakeRefType:
  "downward s \<Longrightarrow> t < length s \<Longrightarrow> downward (snd (MakeRefType t s))"
  unfolding MakeRefType_def by (rule downward_buildType) simp_all

lemma downward_MakeMapType:
  "downward s \<Longrightarrow> k < length s \<Longrightarrow> v < length s \<Longrightarrow> downward (snd (MakeMapType k v s))"
  unfolding MakeMapType_def by (rule downward_buildType) simp_all

lemma downward_MakeStructType:
  assumes d: "downward s" and f: "\<forall>fl \<in> set flds. snd fl < length s"
    and m: "MakeStructType name flds s = Inr (p, s1)"
  shows "downward s1"
proof -
  from m have s1: "s1 = snd (buildType (StructDesc name flds) s)"
    by (auto simp: MakeStructType_def split: sum.splits)
  show ?thesis unfolding s1
    by (rule downward_buildType [OF d]) (use f in \<open>auto simp: list_all_iff\<close>)
qed

lemma snd_assignField:
  "x \<in> set (assignField name t flds) \<Longrightarrow> snd x = t \<or> snd x \<in> snd ` set flds"
proof (induction flds)
  case Nil
  then show ?case by simp
next
  case (Cons fl flds)
  obtain name' t' where fl: "fl = (name', t')" by (cases fl)
  show ?case
  proof (cases "name = name'")
    case True
    with Cons.prems have "x = (name, t) \<or> x \<in> set flds" by (simp add: fl)
    then show ?thesis by auto
  next
    case False
    with Cons.prems have "x = (name', t') \<or> x \<in> set (assignField name t flds)" by (simp add: fl)
    then show ?thesis
    proof
      assume "x = (name', t')" then show ?thesis by (simp add: fl)
    next
      assume "x \<in> set (assignField name t flds)"
      from Cons.IH [OF this] show ?thesis by auto
    qed
  qed
qed

lemma downward_setField:
  assumes d: "downward s" and t: "t < length s"
  shows "downward (setField p fieldName t s)"
proof (cases "Desc (s ! p)")
  case (StructDesc name flds)
  let ?s' = "s[p := (s ! p)\<lparr>Desc := StructDesc name (assignField fieldName t flds)\<rparr>]"
  have s': "setField p fieldName t s = ?s'" using StructDesc by (simp add: setField_def)
  show ?thesis unfolding s'
  proof (rule downwardI)
    fix q assume q: "q < length ?s'"
    then have ql: "q < length s" by simp
    show "desc_downward (length ?s') q (Desc (?s' ! q))"
    proof (cases "q = p")
      case True
      from downwardD [OF d ql] True StructDesc
      have old: "\<forall>x \<in> set flds. snd x < length s" by (simp add: list_all_iff)
      have "\<forall>x \<in> set (assignField fieldName t flds). snd x < length s"
      proof
        fix x assume "x \<in> set (assignField fieldName t flds)"
        from snd_assignField [OF this] old t show "snd x < length s" by auto
      qed
      then show ?thesis using True ql by (simp add: list_all_iff)
    next
      case False
      then show ?thesis using downwardD [OF d ql] ql by simp
    qed
  qed
qed (simp_all add: setField_def d)

lemma Type_Ref_Desc:
  "Type_Ref H n p s = Some (r, s') \<Longrightarrow> map Desc s' = map Desc s"
  by (auto simp: Type_Ref_def EnsureRef_def map_Desc_update_ref split: if_splits option.splits)

lemma downward_Type_Ref:
  "downward s \<Longrightarrow> Type_Ref H n p s = Some (r, s') \<Longrightarrow> downward s'"
  using downward_Desc_cong [OF Type_Ref_Desc] by blast

lemma refsOf_Desc:
  "refsOf H n ts s = Some (rs, s') \<Longrightarrow> map Desc s' = map Desc s \<and> length rs = length ts"
proof (induction ts arbitrary: s rs)
  case Nil
  then show ?case by simp
next
  case (Cons t ts)
  from Cons.prems obtain r s1 rs' where 1: "Type_Ref H n t s = Some (r, s1)"
    and 2: "refsOf H n ts s1 = Some (rs', s')" and 3: "rs = r # rs'"
    by (auto split: option.splits)
  from Cons.IH [OF 2] Type_Ref_Desc [OF 1] 3 show ?case by simp
qed

lemma sort_unionTypes_Desc:
  assumes "sort_unionTypes H n uts s = Some (ms, s')"
  shows "map Desc s' = map Desc s \<and> set ms = set uts"
proof (cases "length uts < 2")
  case True
  with assms show ?thesis by (simp add: sort_unionTypes_def)
next
  case False
  with assms obtain rs where r: "refsOf H n uts s = Some (rs, s')"
    and ms: "ms = map snd (sort_key fst (zip rs uts))"
    by (auto simp: sort_unionTypes_def split: option.splits)
  from refsOf_Desc [OF r] have l: "length rs = length uts" and d: "map Desc s' = map Desc s"
    by simp_all
  have "set ms = snd ` set (zip rs uts)" by (simp add: ms)
  also have "\<dots> = set (map snd (zip rs uts))" by simp
  also have "\<dots> = set uts" using l by simp
  finally show ?thesis using d by simp
qed

lemma downward_MakeUnionType:
  assumes d: "downward s" and xs: "\<forall>t \<in> set xs. t < length s"
    and m: "MakeUnionType H n xs s = Some (u, s')"
  shows "downward s'"
proof -
  from m obtain ms s1 where su: "sort_unionTypes H n xs s = Some (ms, s1)"
    and s': "s' = snd (buildType (CompoundDesc UnionKind ms) s1)"
    by (auto simp: MakeUnionType_def split: option.splits)
  from sort_unionTypes_Desc [OF su] have dd: "map Desc s1 = map Desc s" and st: "set ms = set xs"
    by simp_all
  have l: "length s1 = length s" using dd by (metis length_map)
  have d1: "downward s1" using d downward_Desc_cong [OF dd] by simp
  show ?thesis unfolding s'
    by (rule downward_buildType [OF d1]) (use xs st l in \<open>simp add: list_all_iff\<close>)
qed

lemma downward_encodable_aux:
  assumes d: "downward s"
  shows "card ({..<length s} - set ps) = m \<Longrightarrow> p < length s \<Longrightarrow> encodable s ps p"
proof (induction m arbitrary: ps p rule: less_induct)
  case (less m)
  note outer = less.IH
  note cm = less.prems(1)
  from less.prems(2) show ?case
  proof (induction p rule: less_induct)
    case (less p)
    note p = less.prems
    note dp = downwardD [OF d p]
    show ?case
    proof (cases "Desc (s ! p)")
      case (PrimitiveDesc k)
      with dp have "isPrimitiveKind k" by simp
      with p PrimitiveDesc show ?thesis by (rule encodable.primitive)
    next
      case (CompoundDesc k es)
      with dp have kk: "k = ListKind \<or> k = MapKind \<or> k = RefKind \<or> k = SetKind \<or> k = UnionKind"
        and es: "\<forall>t \<in> set es. t < p" by (simp_all add: list_all_iff)
      have "\<forall>t \<in> set es. encodable s ps t"
      proof
        fix t assume "t \<in> set es"
        with es have tp: "t < p" by simp
        with p have "t < length s" by simp
        with tp show "encodable s ps t" by (rule less.IH)
      qed
      with p CompoundDesc kk show ?thesis by (rule encodable.compound)
    next
      case (StructDesc name flds)
      show ?thesis
      proof (cases "p \<in> set ps")
        case True
        with p StructDesc show ?thesis by (rule encodable.cycle)
      next
        case False
        from dp StructDesc have fl: "\<forall>fl \<in> set flds. snd fl < length s" by (simp add: list_all_iff)
        have pin: "p \<in> {..<length s} - set ps" using p False by simp
        have "{..<length s} - set (p # ps) = ({..<length s} - set ps) - {p}" by auto
        then have "card ({..<length s} - set (p # ps)) = card ({..<length s} - set ps) - 1"
          using pin by simp
        moreover have "0 < card ({..<length s} - set ps)" using pin by (auto simp: card_gt_0_iff)
        ultimately have c: "card ({..<length s} - set (p # ps)) < m" using cm by simp
        have "\<forall>fl \<in> set flds. encodable s (p # ps) (snd fl)"
        proof
          fix fl assume "fl \<in> set flds"
          with fl have "snd fl < length s" by simp
          from outer [OF c refl this] show "encodable s (p # ps) (snd fl)" .
        qed
        with p StructDesc False show ?thesis by (rule encodable.struct)
      qed
    qed
  qed
qed

lemma downward_encodable: "downward s \<Longrightarrow> p < length s \<Longrightarrow> encodable s ps p"
  by (rule downward_encodable_aux [OF _ refl])





section \<open>The round trip of values\<close>

lemma reads_withD:
  assumes "reads_with w w' rd m" "w x = Some e" "length e \<le> m" "prims_ok s0"
  shows "\<exists>x' s1. rd s0 (e @ rest) = Some (x', s1, rest)
           \<and> rebuilt s0 s1 [] (\<lambda>s3. w' s3 x' = Some e)"
  using assms unfolding reads_with_def by blast

lemma rebuilt_seq:
  assumes 1: "rebuilt s0 s1 [] W1" and 2: "rebuilt s1 s2 [] W2"
  shows "rebuilt s0 s2 [] (\<lambda>s3. W1 s3 \<and> W2 s3)"
proof (rule rebuiltI)
  note d1 = rebuiltD [OF 1] and d2 = rebuiltD [OF 2]
  show "length s0 \<le> length s2" using d1(1) d2(1) by simp
  have "take (length s0) s2 = take (length s0) (take (length s1) s2)"
    using d1(1) by (simp add: min.absorb1)
  also have "\<dots> = take (length s0) s1" by (simp only: d2(2))
  also have "\<dots> = s0" by (rule d1(2))
  finally show "take (length s0) s2 = s0" .
next
  note d1 = rebuiltD [OF 1] and d2 = rebuiltD [OF 2]
  fix s3 assume a: "agrees (length s0) s2 s3" "prims_ok s3" "pending s3 []"
  have "agrees (length s0) s1 s3" by (rule agrees_mono [OF a(1) _ d2(1) d2(2)]) simp
  then have "W1 s3" using a(2,3) by (rule d1(3))
  moreover have "agrees (length s1) s2 s3" by (rule agrees_mono [OF a(1) d1(1)]) simp_all
  then have "W2 s3" using a(2,3) by (rule d2(3))
  ultimately show "W1 s3 \<and> W2 s3" ..
next
  note d1 = rebuiltD [OF 1] and d2 = rebuiltD [OF 2]
  fix q assume q: "length s0 \<le> q" "q < length s2"
  show "ref (s2 ! q) = None"
    by (rule rebuilt_refs_trans [OF d1(4) d2(4) d2(2) d2(1) q])
qed

lemma rebuilt_same:
  assumes "\<And>s3. prims_ok s3 \<Longrightarrow> length s0 \<le> length s3 \<Longrightarrow> W s3"
  shows "rebuilt s0 s0 [] W"
proof (rule rebuiltI)
  fix s3 assume "agrees (length s0) s0 s3" "prims_ok s3"
  then show "W s3" using assms by (simp add: agrees_def)
qed simp_all

lemma rebuilt_weaken:
  assumes r: "rebuilt s0 s1 [] W"
    and i: "\<And>s3. agrees (length s0) s1 s3 \<Longrightarrow> prims_ok s3 \<Longrightarrow> W s3 \<Longrightarrow> W' s3"
  shows "rebuilt s0 s1 [] W'"
proof (rule rebuiltI)
  note d = rebuiltD [OF r]
  show "length s0 \<le> length s1" by (rule d(1))
  show "take (length s0) s1 = s0" by (rule d(2))
  fix s3 assume a: "agrees (length s0) s1 s3" "prims_ok s3" "pending s3 []"
  from d(3) [OF a] have "W s3" .
  with a(1,2) show "W' s3" by (rule i)
next
  note d = rebuiltD [OF r]
  fix q assume "length s0 \<le> q" "q < length s1"
  then show "ref (s1 ! q) = None" by (rule d(4))
qed

lemma rebuilt_now:
  assumes r: "rebuilt s0 s1 [] W" and pr: "prims_ok s0"
  shows "prims_ok s1 \<and> W s1"
proof -
  note d = rebuiltD [OF r]
  have p1: "prims_ok s1" by (rule prims_ok_take [OF pr d(1,2)])
  have "agrees (length s0) s1 s1" by (simp add: agrees_def)
  moreover have "pending s1 []" by (simp add: pending_def)
  ultimately have "W s1" using p1 d(3) by blast
  with p1 show ?thesis ..
qed

lemma writeMany_Cons_Some:
  "writeMany w (x # xs) = Some e \<longleftrightarrow> (\<exists>a b. w x = Some a \<and> writeMany w xs = Some b \<and> e = a @ b)"
  by (auto split: option.splits)

lemma readMany_writeMany:
  assumes R: "reads_with w w' rd m"
  shows "writeMany w xs = Some e \<Longrightarrow> length e \<le> m \<Longrightarrow> prims_ok s0 \<Longrightarrow>
     \<exists>xs' s1. readMany rd (length xs) s0 (e @ rest) = Some (xs', s1, rest)
        \<and> length xs' = length xs
        \<and> rebuilt s0 s1 [] (\<lambda>s3. writeMany (w' s3) xs' = Some e)"
proof (induction xs arbitrary: e s0)
  case Nil
  then have e: "e = []" by simp
  have "rebuilt s0 s0 [] (\<lambda>s3. writeMany (w' s3) [] = Some e)"
    by (rule rebuilt_same) (simp add: e)
  then show ?case by (simp add: e)
next
  case (Cons x xs)
  from Cons.prems(1) obtain a b where wa: "w x = Some a" and wb: "writeMany w xs = Some b"
    and e: "e = a @ b" unfolding writeMany_Cons_Some by blast
  have la: "length a \<le> m" and lb: "length b \<le> m" using Cons.prems(2) e by simp_all
  from reads_withD [OF R wa la Cons.prems(3), of "b @ rest"]
  obtain x' s1 where rx: "rd s0 (a @ b @ rest) = Some (x', s1, b @ rest)"
    and r1: "rebuilt s0 s1 [] (\<lambda>s3. w' s3 x' = Some a)" by blast
  from rebuilt_now [OF r1 Cons.prems(3)] have p1: "prims_ok s1" by simp
  from Cons.IH [OF wb lb p1]
  obtain xs' s2 where rxs: "readMany rd (length xs) s1 (b @ rest) = Some (xs', s2, rest)"
    and l: "length xs' = length xs"
    and r2: "rebuilt s1 s2 [] (\<lambda>s3. writeMany (w' s3) xs' = Some b)" by blast
  have rd: "readMany rd (length (x # xs)) s0 (e @ rest) = Some (x' # xs', s2, rest)"
    using rx rxs by (simp add: e)
  have "rebuilt s0 s2 [] (\<lambda>s3. writeMany (w' s3) (x' # xs') = Some e)"
    by (rule rebuilt_weaken [OF rebuilt_seq [OF r1 r2]]) (simp add: e)
  with rd l show ?case by simp
qed

lemma reads_with_entry:
  assumes R: "reads_with w w' rd m"
  shows "reads_with (writeEntry w) (\<lambda>s. writeEntry (w' s)) (readEntry rd) m"
  unfolding reads_with_def
proof (intro allI impI)
  fix kv e s0 rest
  assume w: "writeEntry w kv = Some e" and le: "length e \<le> m" and pr: "prims_ok s0"
  from w obtain a b where wa: "w (fst kv) = Some a" and wb: "w (snd kv) = Some b"
    and e: "e = a @ b" by (auto simp: writeEntry_def split: option.splits)
  have la: "length a \<le> m" and lb: "length b \<le> m" using le e by simp_all
  from reads_withD [OF R wa la pr, of "b @ rest"]
  obtain k' s1 where rk: "rd s0 (a @ b @ rest) = Some (k', s1, b @ rest)"
    and r1: "rebuilt s0 s1 [] (\<lambda>s3. w' s3 k' = Some a)" by blast
  from rebuilt_now [OF r1 pr] have p1: "prims_ok s1" by simp
  from reads_withD [OF R wb lb p1, of rest]
  obtain v' s2 where rv: "rd s1 (b @ rest) = Some (v', s2, rest)"
    and r2: "rebuilt s1 s2 [] (\<lambda>s3. w' s3 v' = Some b)" by blast
  have rd: "readEntry rd s0 (e @ rest) = Some ((k', v'), s2, rest)"
    using rk rv by (simp add: readEntry_def e)
  have "rebuilt s0 s2 [] (\<lambda>s3. writeEntry (w' s3) (k', v') = Some e)"
    by (rule rebuilt_weaken [OF rebuilt_seq [OF r1 r2]]) (simp add: e writeEntry_def)
  with rd show "\<exists>x' s1. readEntry rd s0 (e @ rest) = Some (x', s1, rest)
      \<and> rebuilt s0 s1 [] (\<lambda>s3. writeEntry (w' s3) x' = Some e)" by blast
qed

lemma reads_with_tuple:
  assumes R: "reads_with w w' rd m"
  shows "reads_with (writeMetaTuple w) (\<lambda>s. writeMetaTuple (w' s)) (readMetaTuple rd) m"
  unfolding reads_with_def
proof (intro allI impI)
  fix mt e s0 rest
  assume w: "writeMetaTuple w mt = Some e" and le: "length e \<le> m" and pr: "prims_ok s0"
  from w obtain a b where wa: "w (fst mt) = Some a" and wb: "w (fst (snd mt)) = Some b"
    and e: "e = a @ b @ [Uint64 (snd (snd mt))]"
    by (auto simp: writeMetaTuple_def split: option.splits)
  have la: "length a \<le> m" and lb: "length b \<le> m" using le e by simp_all
  from reads_withD [OF R wa la pr, of "b @ Uint64 (snd (snd mt)) # rest"]
  obtain k' s1 where
    rk: "rd s0 (a @ b @ Uint64 (snd (snd mt)) # rest) = Some (k', s1, b @ Uint64 (snd (snd mt)) # rest)"
    and r1: "rebuilt s0 s1 [] (\<lambda>s3. w' s3 k' = Some a)" by blast
  from rebuilt_now [OF r1 pr] have p1: "prims_ok s1" by simp
  from reads_withD [OF R wb lb p1, of "Uint64 (snd (snd mt)) # rest"]
  obtain v' s2 where rv: "rd s1 (b @ Uint64 (snd (snd mt)) # rest) = Some (v', s2, Uint64 (snd (snd mt)) # rest)"
    and r2: "rebuilt s1 s2 [] (\<lambda>s3. w' s3 v' = Some b)" by blast
  have rd: "readMetaTuple rd s0 (e @ rest) = Some ((k', v', snd (snd mt)), s2, rest)"
    using rk rv by (simp add: readMetaTuple_def e)
  have "rebuilt s0 s2 [] (\<lambda>s3. writeMetaTuple (w' s3) (k', v', snd (snd mt)) = Some e)"
    by (rule rebuilt_weaken [OF rebuilt_seq [OF r1 r2]]) (simp add: e writeMetaTuple_def)
  with rd show "\<exists>x' s1. readMetaTuple rd s0 (e @ rest) = Some (x', s1, rest)
      \<and> rebuilt s0 s1 [] (\<lambda>s3. writeMetaTuple (w' s3) x' = Some e)" by blast
qed

lemma reads_with_field:
  assumes R: "reads_with w w' rd m"
  shows "reads_with (writeField w data) w' rd m"
  unfolding reads_with_def
proof (intro allI impI)
  fix name e s0 rest
  assume w: "writeField w data name = Some e" and le: "length e \<le> m" and pr: "prims_ok s0"
  from w obtain v where "w v = Some e" by (auto simp: writeField_def split: option.splits)
  from reads_withD [OF R this le pr]
  show "\<exists>x' s1. rd s0 (e @ rest) = Some (x', s1, rest) \<and> rebuilt s0 s1 [] (\<lambda>s3. w' s3 x' = Some e)" .
qed

lemma writeMany_cong:
  "\<forall>x \<in> set xs. f x = g x \<Longrightarrow> writeMany f xs = writeMany g xs"
  by (induction xs) (simp_all split: option.splits)

lemma writeMany_zip:
  "distinct names \<Longrightarrow> length vs = length names \<Longrightarrow>
     writeMany (writeField w (zip names vs)) names = writeMany w vs"
proof (induction names arbitrary: vs)
  case Nil
  then show ?case by simp
next
  case (Cons nm names)
  then obtain v vs' where vs: "vs = v # vs'" by (cases vs) auto
  define f where "f = writeField w (zip (nm # names) vs)"
  have 1: "f nm = w v" by (simp add: f_def vs writeField_def)
  have "\<forall>x \<in> set names. f x = writeField w (zip names vs') x"
    using Cons.prems(1) by (auto simp: f_def writeField_def vs)
  then have "writeMany f names = writeMany (writeField w (zip names vs')) names"
    by (rule writeMany_cong)
  also have "\<dots> = writeMany w vs'" using Cons.prems by (intro Cons.IH) (simp_all add: vs)
  finally have 2: "writeMany f names = writeMany w vs'" .
  show ?case unfolding f_def [symmetric] by (simp add: 1 vs) (simp only: 2)
qed

lemma writeType_nonempty: "writeType n s ps p = Some e \<Longrightarrow> e \<noteq> []"
  by (cases n) (auto simp: writeKind_def split: if_splits TypeDesc.splits option.splits)

lemma fst_typeShape: "fst (typeShape s p) = Kind (s ! p)"
  by (cases "Desc (s ! p)") (simp_all add: typeShape_def Kind_def)

lemma typeShape_struct:
  "Desc (s ! p) = StructDesc name flds \<Longrightarrow> typeShape s' p' = typeShape s p \<Longrightarrow>
     \<exists>name' flds'. Desc (s' ! p') = StructDesc name' flds'
        \<and> map fst (IterFields flds') = map fst (IterFields flds)"
  by (cases "Desc (s' ! p')") (simp_all add: typeShape_def)

lemma typeShape_Kind: "typeShape s' p' = typeShape s p \<Longrightarrow> Kind (s' ! p') = Kind (s ! p)"
  by (metis fst_typeShape)

lemma reads_header:
  assumes ok: "types_ok s" and w: "writeType n s [] t = Some a" and le: "length a \<le> f"
    and pr: "prims_ok s0"
  shows "\<exists>t' s1. readType f [] s0 (a @ rest) = Some (t', s1, rest)
           \<and> rebuilt s0 s1 [] (\<lambda>s3. writeType n s3 [] t' = Some a \<and> typeShape s3 t' = typeShape s t)
           \<and> prims_ok s1 \<and> typeShape s1 t' = typeShape s t"
proof -
  from reads_typeD [OF reads_type_all [OF ok] w le pr, of "[]" rest]
  obtain t' s1 where rd: "readType f [] s0 (a @ rest) = Some (t', s1, rest)"
    and rb: "rebuilt s0 s1 [] (\<lambda>s3. writeType n s3 [] t' = Some a
                \<and> (t \<notin> set [] \<longrightarrow> typeShape s3 t' = typeShape s t))"
    by auto
  have rb': "rebuilt s0 s1 [] (\<lambda>s3. writeType n s3 [] t' = Some a \<and> typeShape s3 t' = typeShape s t)"
    by (rule rebuilt_weaken [OF rb]) simp
  from rebuilt_now [OF rb' pr] rd rb' show ?thesis by blast
qed

lemma readValue_Bool:
  "readType f [] s a = Some (t, s1, Boolean b # a2) \<Longrightarrow> Kind (s1 ! t) = BoolKind \<Longrightarrow>
     readValue (Suc f) s a = Some (BoolV b, s1, a2)"
  by simp

lemma readValue_Number:
  "readType f [] s a = Some (t, s1, Float64 x # a2) \<Longrightarrow> Kind (s1 ! t) = NumberKind \<Longrightarrow>
     readValue (Suc f) s a = Some (NumberV x, s1, a2)"
  by simp

lemma readValue_String:
  "readType f [] s a = Some (t, s1, Str x # a2) \<Longrightarrow> Kind (s1 ! t) = StringKind \<Longrightarrow>
     readValue (Suc f) s a = Some (StringV x, s1, a2)"
  by simp

lemma readValue_Blob:
  "readType f [] s a = Some (t, s1, Boolean False # Bytes bytes # a3) \<Longrightarrow>
   Kind (s1 ! t) = BlobKind \<Longrightarrow>
     readValue (Suc f) s a = Some (BlobV bytes, s1, a3)"
  by simp

lemma readValue_Meta:
  "readType f [] s a = Some (t, s1, Boolean True # Uint32 len # a3) \<Longrightarrow>
   Kind (s1 ! t) = BlobKind \<or> Kind (s1 ! t) = ListKind \<or> Kind (s1 ! t) = SetKind
     \<or> Kind (s1 ! t) = MapKind \<Longrightarrow>
     readValue (Suc f) s a =
       (case readMany (readMetaTuple (readValue f)) len s1 a3 of
          None \<Rightarrow> None
        | Some (mts, s2, a4) \<Rightarrow> Some (MetaV t mts, s2, a4))"
  by (auto simp: readMetaSequence_def)

lemma readValue_Leaf:
  "readType f [] s a = Some (t, s1, Boolean False # Uint32 len # a3) \<Longrightarrow>
   Kind (s1 ! t) = ListKind \<or> Kind (s1 ! t) = SetKind \<Longrightarrow>
     readValue (Suc f) s a =
       (case readMany (readValue f) len s1 a3 of
          None \<Rightarrow> None
        | Some (vs, s2, a4) \<Rightarrow> Some (LeafV t vs, s2, a4))"
  by auto

lemma readValue_MapLeaf:
  "readType f [] s a = Some (t, s1, Boolean False # Uint32 len # a3) \<Longrightarrow>
   Kind (s1 ! t) = MapKind \<Longrightarrow>
     readValue (Suc f) s a =
       (case readMany (readEntry (readValue f)) len s1 a3 of
          None \<Rightarrow> None
        | Some (kvs, s2, a4) \<Rightarrow> Some (MapLeafV t kvs, s2, a4))"
  by simp

lemma readValue_Ref:
  "readType f [] s a = Some (t, s1, Str h # Uint64 ht # a3) \<Longrightarrow> Kind (s1 ! t) = RefKind \<Longrightarrow>
     readValue (Suc f) s a = Some (RefV t h ht, s1, a3)"
  by (simp add: readHash_def)

lemma readValue_Struct:
  "readType f [] s a = Some (t, s1, a1) \<Longrightarrow> Desc (s1 ! t) = StructDesc name flds \<Longrightarrow>
     readValue (Suc f) s a =
       (case readMany (readValue f) (length flds) s1 a1 of
          None \<Rightarrow> None
        | Some (vs, s2, a2) \<Rightarrow> Some (StructV t (zip (map fst (IterFields flds)) vs), s2, a2))"
  by (simp add: Kind_def)

lemma readValue_Type:
  "readType f [] s a = Some (t, s1, a1) \<Longrightarrow> Kind (s1 ! t) = TypeKind \<Longrightarrow>
     readValue (Suc f) s a =
       (case readType f [] s1 a1 of
          None \<Rightarrow> None
        | Some (t', s2, a2) \<Rightarrow> Some (TypeV t', s2, a2))"
  by simp

lemma prim_header:
  assumes "prims_ok s0" "isPrimitiveKind k"
  shows "\<exists>p. readType (Suc f) [] s0 (writeKind k @ a) = Some (p, s0, a) \<and> Kind (s0 ! p) = k"
proof -
  from MakePrimitiveType_writes [OF assms(2,1)] obtain p where
    p: "MakePrimitiveType k = Inr p" "p < length s0" "Desc (s0 ! p) = PrimitiveDesc k" by blast
  from readType_prim [OF assms(2) p(1), of f "[]" s0 a] p(3) show ?thesis
    by (simp add: Kind_def)
qed

lemma distinct_IterFields:
  "distinct (map fst (IterFields flds)) = distinct (map fst flds)"
proof -
  have "mset (map fst (IterFields flds)) = mset (map fst flds)"
    by (simp add: IterFields_def)
  then show ?thesis by (rule mset_eq_imp_distinct_iff)
qed

lemma fields_uniqueD:
  "fields_unique s \<Longrightarrow> t < length s \<Longrightarrow> Desc (s ! t) = StructDesc name flds \<Longrightarrow>
     distinct (map fst flds)"
  by (auto simp: fields_unique_def list_all_length)

lemma writeType_in_store: "writeType n s ps p = Some e \<Longrightarrow> p < length s"
  by (cases n) (simp_all split: if_splits)

lemma reads_value_Suc:
  assumes ok: "types_ok s" and un: "fields_unique s"
    and IH: "\<And>m. reads_with (writeValue n s) (writeValue n) (readValue (Suc m)) m"
  shows "reads_with (writeValue (Suc n) s) (writeValue (Suc n)) (readValue (Suc m)) m"
  unfolding reads_with_def
proof (intro allI impI)
  fix v e s0 rest
  assume w: "writeValue (Suc n) s v = Some e" and le: "length e \<le> m" and pr: "prims_ok s0"
  show "\<exists>v' s1. readValue (Suc m) s0 (e @ rest) = Some (v', s1, rest)
          \<and> rebuilt s0 s1 [] (\<lambda>s3. writeValue (Suc n) s3 v' = Some e)"
  proof (cases v)
    case (BoolV b)
    with w have e: "e = writeKind BoolKind @ [Boolean b]" by simp
    with le obtain m' where m: "m = Suc m'" by (cases m) (simp_all add: writeKind_def)
    from prim_header [OF pr, of BoolKind m' "Boolean b # rest"] obtain p where
      "readType m [] s0 (e @ rest) = Some (p, s0, Boolean b # rest)" "Kind (s0 ! p) = BoolKind"
      by (auto simp: isPrimitiveKind_def e m)
    then have "readValue (Suc m) s0 (e @ rest) = Some (BoolV b, s0, rest)"
      by (rule readValue_Bool)
    moreover have "rebuilt s0 s0 [] (\<lambda>s3. writeValue (Suc n) s3 (BoolV b) = Some e)"
      by (rule rebuilt_same) (simp add: e)
    ultimately show ?thesis by blast
  next
    case (NumberV x)
    with w have e: "e = writeKind NumberKind @ [Float64 x]" by simp
    with le obtain m' where m: "m = Suc m'" by (cases m) (simp_all add: writeKind_def)
    from prim_header [OF pr, of NumberKind m' "Float64 x # rest"] obtain p where
      "readType m [] s0 (e @ rest) = Some (p, s0, Float64 x # rest)" "Kind (s0 ! p) = NumberKind"
      by (auto simp: isPrimitiveKind_def e m)
    then have "readValue (Suc m) s0 (e @ rest) = Some (NumberV x, s0, rest)"
      by (rule readValue_Number)
    moreover have "rebuilt s0 s0 [] (\<lambda>s3. writeValue (Suc n) s3 (NumberV x) = Some e)"
      by (rule rebuilt_same) (simp add: e)
    ultimately show ?thesis by blast
  next
    case (StringV x)
    with w have e: "e = writeKind StringKind @ [Str x]" by simp
    with le obtain m' where m: "m = Suc m'" by (cases m) (simp_all add: writeKind_def)
    from prim_header [OF pr, of StringKind m' "Str x # rest"] obtain p where
      "readType m [] s0 (e @ rest) = Some (p, s0, Str x # rest)" "Kind (s0 ! p) = StringKind"
      by (auto simp: isPrimitiveKind_def e m)
    then have "readValue (Suc m) s0 (e @ rest) = Some (StringV x, s0, rest)"
      by (rule readValue_String)
    moreover have "rebuilt s0 s0 [] (\<lambda>s3. writeValue (Suc n) s3 (StringV x) = Some e)"
      by (rule rebuilt_same) (simp add: e)
    ultimately show ?thesis by blast
  next
    case (BlobV bytes)
    with w have e: "e = writeKind BlobKind @ [Boolean False, Bytes bytes]" by simp
    with le obtain m' where m: "m = Suc m'" by (cases m) (simp_all add: writeKind_def)
    from prim_header [OF pr, of BlobKind m' "Boolean False # Bytes bytes # rest"] obtain p where
      "readType m [] s0 (e @ rest) = Some (p, s0, Boolean False # Bytes bytes # rest)"
      "Kind (s0 ! p) = BlobKind"
      by (auto simp: isPrimitiveKind_def e m)
    then have "readValue (Suc m) s0 (e @ rest) = Some (BlobV bytes, s0, rest)"
      by (rule readValue_Blob)
    moreover have "rebuilt s0 s0 [] (\<lambda>s3. writeValue (Suc n) s3 (BlobV bytes) = Some e)"
      by (rule rebuilt_same) (simp add: e)
    ultimately show ?thesis by blast
  next
    case (LeafV t vs)
    with w obtain a b where wt: "writeType n s [] t = Some a"
      and k: "Kind (s ! t) = ListKind \<or> Kind (s ! t) = SetKind"
      and wb: "writeMany (writeValue n s) vs = Some b"
      and e: "e = a @ [Boolean False, Uint32 (length vs)] @ b"
      by (auto split: option.splits if_splits)
    from le e obtain m' where m: "m = Suc m'" by (cases m) simp_all
    have la: "length a \<le> m" and lb: "length b \<le> m'" using le e m by simp_all
    from reads_header [OF ok wt la pr, of "Boolean False # Uint32 (length vs) # b @ rest"]
    obtain t' s1 where
      rt: "readType m [] s0 (a @ Boolean False # Uint32 (length vs) # b @ rest)
             = Some (t', s1, Boolean False # Uint32 (length vs) # b @ rest)"
      and r1: "rebuilt s0 s1 [] (\<lambda>s3. writeType n s3 [] t' = Some a \<and> typeShape s3 t' = typeShape s t)"
      and p1: "prims_ok s1" and sh: "typeShape s1 t' = typeShape s t" by blast
    have k1: "Kind (s1 ! t') = ListKind \<or> Kind (s1 ! t') = SetKind"
      using k typeShape_Kind [OF sh] by simp
    from readMany_writeMany [OF IH wb lb p1, of rest]
    obtain vs' s2 where
      rm: "readMany (readValue (Suc m')) (length vs) s1 (b @ rest) = Some (vs', s2, rest)"
      and l: "length vs' = length vs"
      and r2: "rebuilt s1 s2 [] (\<lambda>s3. writeMany (writeValue n s3) vs' = Some b)" by blast
    have "readValue (Suc m) s0 (e @ rest) = Some (LeafV t' vs', s2, rest)"
      using readValue_Leaf [OF rt k1] rm by (simp add: e m)
    moreover have "rebuilt s0 s2 [] (\<lambda>s3. writeValue (Suc n) s3 (LeafV t' vs') = Some e)"
    proof (rule rebuilt_weaken [OF rebuilt_seq [OF r1 r2]])
      fix s3
      assume "(writeType n s3 [] t' = Some a \<and> typeShape s3 t' = typeShape s t)
          \<and> writeMany (writeValue n s3) vs' = Some b"
      then show "writeValue (Suc n) s3 (LeafV t' vs') = Some e"
        using k l by (auto simp: e dest: typeShape_Kind)
    qed
    ultimately show ?thesis by blast
  next
    case (MapLeafV t kvs)
    with w obtain a b where wt: "writeType n s [] t = Some a"
      and k: "Kind (s ! t) = MapKind"
      and wb: "writeMany (writeEntry (writeValue n s)) kvs = Some b"
      and e: "e = a @ [Boolean False, Uint32 (length kvs)] @ b"
      by (auto split: option.splits if_splits)
    from le e obtain m' where m: "m = Suc m'" by (cases m) simp_all
    have la: "length a \<le> m" and lb: "length b \<le> m'" using le e m by simp_all
    from reads_header [OF ok wt la pr, of "Boolean False # Uint32 (length kvs) # b @ rest"]
    obtain t' s1 where
      rt: "readType m [] s0 (a @ Boolean False # Uint32 (length kvs) # b @ rest)
             = Some (t', s1, Boolean False # Uint32 (length kvs) # b @ rest)"
      and r1: "rebuilt s0 s1 [] (\<lambda>s3. writeType n s3 [] t' = Some a \<and> typeShape s3 t' = typeShape s t)"
      and p1: "prims_ok s1" and sh: "typeShape s1 t' = typeShape s t" by blast
    have k1: "Kind (s1 ! t') = MapKind" using k typeShape_Kind [OF sh] by simp
    from readMany_writeMany [OF reads_with_entry [OF IH] wb lb p1, of rest]
    obtain kvs' s2 where
      rm: "readMany (readEntry (readValue (Suc m'))) (length kvs) s1 (b @ rest) = Some (kvs', s2, rest)"
      and l: "length kvs' = length kvs"
      and r2: "rebuilt s1 s2 [] (\<lambda>s3. writeMany (writeEntry (writeValue n s3)) kvs' = Some b)"
      by blast
    have "readValue (Suc m) s0 (e @ rest) = Some (MapLeafV t' kvs', s2, rest)"
      using readValue_MapLeaf [OF rt k1] rm by (simp add: e m)
    moreover have "rebuilt s0 s2 [] (\<lambda>s3. writeValue (Suc n) s3 (MapLeafV t' kvs') = Some e)"
    proof (rule rebuilt_weaken [OF rebuilt_seq [OF r1 r2]])
      fix s3
      assume "(writeType n s3 [] t' = Some a \<and> typeShape s3 t' = typeShape s t)
          \<and> writeMany (writeEntry (writeValue n s3)) kvs' = Some b"
      then show "writeValue (Suc n) s3 (MapLeafV t' kvs') = Some e"
        using k l by (auto simp: e dest: typeShape_Kind)
    qed
    ultimately show ?thesis by blast
  next
    case (MetaV t mts)
    with w obtain a b where wt: "writeType n s [] t = Some a"
      and k: "Kind (s ! t) = BlobKind \<or> Kind (s ! t) = ListKind \<or> Kind (s ! t) = SetKind
                \<or> Kind (s ! t) = MapKind"
      and wb: "writeMany (writeMetaTuple (writeValue n s)) mts = Some b"
      and e: "e = a @ [Boolean True, Uint32 (length mts)] @ b"
      by (auto split: option.splits if_splits)
    from le e obtain m' where m: "m = Suc m'" by (cases m) simp_all
    have la: "length a \<le> m" and lb: "length b \<le> m'" using le e m by simp_all
    from reads_header [OF ok wt la pr, of "Boolean True # Uint32 (length mts) # b @ rest"]
    obtain t' s1 where
      rt: "readType m [] s0 (a @ Boolean True # Uint32 (length mts) # b @ rest)
             = Some (t', s1, Boolean True # Uint32 (length mts) # b @ rest)"
      and r1: "rebuilt s0 s1 [] (\<lambda>s3. writeType n s3 [] t' = Some a \<and> typeShape s3 t' = typeShape s t)"
      and p1: "prims_ok s1" and sh: "typeShape s1 t' = typeShape s t" by blast
    have k1: "Kind (s1 ! t') = BlobKind \<or> Kind (s1 ! t') = ListKind \<or> Kind (s1 ! t') = SetKind
                \<or> Kind (s1 ! t') = MapKind"
      using k typeShape_Kind [OF sh] by simp
    from readMany_writeMany [OF reads_with_tuple [OF IH] wb lb p1, of rest]
    obtain mts' s2 where
      rm: "readMany (readMetaTuple (readValue (Suc m'))) (length mts) s1 (b @ rest)
             = Some (mts', s2, rest)"
      and l: "length mts' = length mts"
      and r2: "rebuilt s1 s2 [] (\<lambda>s3. writeMany (writeMetaTuple (writeValue n s3)) mts' = Some b)"
      by blast
    have "readValue (Suc m) s0 (e @ rest) = Some (MetaV t' mts', s2, rest)"
      using readValue_Meta [OF rt k1] rm by (simp add: e m)
    moreover have "rebuilt s0 s2 [] (\<lambda>s3. writeValue (Suc n) s3 (MetaV t' mts') = Some e)"
    proof (rule rebuilt_weaken [OF rebuilt_seq [OF r1 r2]])
      fix s3
      assume "(writeType n s3 [] t' = Some a \<and> typeShape s3 t' = typeShape s t)
          \<and> writeMany (writeMetaTuple (writeValue n s3)) mts' = Some b"
      then show "writeValue (Suc n) s3 (MetaV t' mts') = Some e"
        using k l by (auto simp: e dest: typeShape_Kind)
    qed
    ultimately show ?thesis by blast
  next
    case (StructV t data)
    with w obtain a b name flds where wt: "writeType n s [] t = Some a"
      and d: "Desc (s ! t) = StructDesc name flds"
      and wb: "writeMany (writeField (writeValue n s) data) (map fst (IterFields flds)) = Some b"
      and e: "e = a @ b"
      by (auto split: option.splits TypeDesc.splits)
    let ?names = "map fst (IterFields flds)"
    from writeType_nonempty [OF wt] le e obtain m' where m: "m = Suc m'"
      by (cases m) simp_all
    have la: "length a \<le> m" using le e by simp
    have lb: "length b \<le> m'" using le e m writeType_nonempty [OF wt] by (cases a) simp_all
    have dn: "distinct ?names"
      using fields_uniqueD [OF un writeType_in_store [OF wt] d] by (simp add: distinct_IterFields)
    from reads_header [OF ok wt la pr, of "b @ rest"]
    obtain t' s1 where rt: "readType m [] s0 (a @ b @ rest) = Some (t', s1, b @ rest)"
      and r1: "rebuilt s0 s1 [] (\<lambda>s3. writeType n s3 [] t' = Some a \<and> typeShape s3 t' = typeShape s t)"
      and p1: "prims_ok s1" and sh: "typeShape s1 t' = typeShape s t" by blast
    from typeShape_struct [OF d sh] obtain name' flds' where
      d1: "Desc (s1 ! t') = StructDesc name' flds'"
      and n1: "map fst (IterFields flds') = ?names" by blast
    have lf: "length flds' = length ?names"
      using arg_cong [OF n1, of length] by simp
    from readMany_writeMany [OF reads_with_field [OF IH] wb lb p1, of rest]
    obtain vs' s2 where
      rm: "readMany (readValue (Suc m')) (length ?names) s1 (b @ rest) = Some (vs', s2, rest)"
      and l: "length vs' = length ?names"
      and r2: "rebuilt s1 s2 [] (\<lambda>s3. writeMany (writeValue n s3) vs' = Some b)" by blast
    have "readValue (Suc m) s0 (e @ rest) = Some (StructV t' (zip ?names vs'), s2, rest)"
      using readValue_Struct [OF rt d1] rm by (simp add: e m lf n1)
    moreover have "rebuilt s0 s2 [] (\<lambda>s3. writeValue (Suc n) s3 (StructV t' (zip ?names vs')) = Some e)"
    proof (rule rebuilt_weaken [OF rebuilt_seq [OF r1 r2]])
      fix s3
      assume a3: "(writeType n s3 [] t' = Some a \<and> typeShape s3 t' = typeShape s t)
          \<and> writeMany (writeValue n s3) vs' = Some b"
      then have sh3: "typeShape s3 t' = typeShape s t" by simp
      from typeShape_struct [OF d sh3] obtain name3 flds3 where
        d3: "Desc (s3 ! t') = StructDesc name3 flds3"
        and n3: "map fst (IterFields flds3) = ?names" by blast
      have "writeMany (writeField (writeValue n s3) (zip ?names vs')) ?names
          = writeMany (writeValue n s3) vs'"
        by (rule writeMany_zip [OF dn l])
      then show "writeValue (Suc n) s3 (StructV t' (zip ?names vs')) = Some e"
        using a3 d3 n3 by (simp add: e)
    qed
    ultimately show ?thesis by blast
  next
    case (RefV t h ht)
    with w obtain a where wt: "writeType n s [] t = Some a"
      and k: "Kind (s ! t) = RefKind"
      and e: "e = a @ [Str h, Uint64 ht]"
      by (auto simp: writeHash_def split: option.splits if_splits)
    have la: "length a \<le> m" using le e by simp
    from reads_header [OF ok wt la pr, of "Str h # Uint64 ht # rest"]
    obtain t' s1 where
      rt: "readType m [] s0 (a @ Str h # Uint64 ht # rest) = Some (t', s1, Str h # Uint64 ht # rest)"
      and r1: "rebuilt s0 s1 [] (\<lambda>s3. writeType n s3 [] t' = Some a \<and> typeShape s3 t' = typeShape s t)"
      and p1: "prims_ok s1" and sh: "typeShape s1 t' = typeShape s t" by blast
    have k1: "Kind (s1 ! t') = RefKind" using k typeShape_Kind [OF sh] by simp
    have "readValue (Suc m) s0 (e @ rest) = Some (RefV t' h ht, s1, rest)"
      using readValue_Ref [OF rt k1] by (simp add: e)
    moreover have "rebuilt s0 s1 [] (\<lambda>s3. writeValue (Suc n) s3 (RefV t' h ht) = Some e)"
    proof (rule rebuilt_weaken [OF r1])
      fix s3
      assume "writeType n s3 [] t' = Some a \<and> typeShape s3 t' = typeShape s t"
      then show "writeValue (Suc n) s3 (RefV t' h ht) = Some e"
        using k by (auto simp: e writeHash_def dest: typeShape_Kind)
    qed
    ultimately show ?thesis by blast
  next
    case (TypeV t)
    with w obtain a where wt: "writeType n s [] t = Some a"
      and e: "e = writeKind TypeKind @ a"
      by (auto split: option.splits)
    from le e obtain m' where m: "m = Suc m'" by (cases m) (simp_all add: writeKind_def)
    have la: "length a \<le> m" using le e by simp
    from prim_header [OF pr, of TypeKind m' "a @ rest"] obtain p where
      rp: "readType m [] s0 (e @ rest) = Some (p, s0, a @ rest)" and kp: "Kind (s0 ! p) = TypeKind"
      by (auto simp: isPrimitiveKind_def e m)
    from reads_header [OF ok wt la pr, of rest]
    obtain t' s1 where rt: "readType m [] s0 (a @ rest) = Some (t', s1, rest)"
      and r1: "rebuilt s0 s1 [] (\<lambda>s3. writeType n s3 [] t' = Some a \<and> typeShape s3 t' = typeShape s t)"
      by blast
    have "readValue (Suc m) s0 (e @ rest) = Some (TypeV t', s1, rest)"
      using readValue_Type [OF rp kp] rt by simp
    moreover have "rebuilt s0 s1 [] (\<lambda>s3. writeValue (Suc n) s3 (TypeV t') = Some e)"
      by (rule rebuilt_weaken [OF r1]) (simp add: e)
    ultimately show ?thesis by blast
  qed
qed

lemma reads_value_all:
  assumes ok: "types_ok s" and un: "fields_unique s"
  shows "reads_with (writeValue n s) (writeValue n) (readValue (Suc m)) m"
proof (induction n arbitrary: m)
  case 0
  show ?case by (simp add: reads_with_def)
next
  case (Suc n)
  show ?case by (rule reads_value_Suc [OF ok un Suc.IH])
qed

lemma writeMany_mono:
  assumes "\<And>x e. w x = Some e \<Longrightarrow> w' x = Some e"
  shows "writeMany w xs = Some b \<Longrightarrow> writeMany w' xs = Some b"
proof (induction xs arbitrary: b)
  case Nil
  then show ?case by simp
next
  case (Cons x xs)
  from Cons.prems obtain a c where "w x = Some a" "writeMany w xs = Some c" "b = a @ c"
    unfolding writeMany_Cons_Some by blast
  with assms [of x a] Cons.IH [of c] show ?case by simp
qed

lemma writeEntry_mono:
  assumes "\<And>x e. w x = Some e \<Longrightarrow> w' x = Some e"
  shows "writeEntry w kv = Some b \<Longrightarrow> writeEntry w' kv = Some b"
  using assms by (auto simp: writeEntry_def split: option.splits)

lemma writeMetaTuple_mono:
  assumes "\<And>x e. w x = Some e \<Longrightarrow> w' x = Some e"
  shows "writeMetaTuple w mt = Some b \<Longrightarrow> writeMetaTuple w' mt = Some b"
  using assms by (auto simp: writeMetaTuple_def split: option.splits)

lemma writeField_mono:
  assumes "\<And>x e. w x = Some e \<Longrightarrow> w' x = Some e"
  shows "writeField w data nm = Some b \<Longrightarrow> writeField w' data nm = Some b"
  using assms by (auto simp: writeField_def split: option.splits)




lemma writeValue_fuel_Suc:
  "writeValue n s v = Some e \<Longrightarrow> writeValue (Suc n) s v = Some e"
proof (induction n arbitrary: v e)
  case 0
  then show ?case by simp
next
  case (Suc n)
  note IH = Suc.IH
  note ty = writeType_fuel_Suc [of n s "[]"]
  show ?case
  proof (cases v)
    case (LeafV t vs)
    with Suc.prems obtain a b where wt: "writeType n s [] t = Some a"
      and k: "Kind (s ! t) = ListKind \<or> Kind (s ! t) = SetKind"
      and wb: "writeMany (writeValue n s) vs = Some b"
      and e: "e = a @ [Boolean False, Uint32 (length vs)] @ b"
      by (auto split: option.splits if_splits)
    from writeMany_mono [OF IH wb] have "writeMany (writeValue (Suc n) s) vs = Some b" .
    with ty [OF wt] k show ?thesis by (auto simp: LeafV e)
  next
    case (MapLeafV t kvs)
    with Suc.prems obtain a b where wt: "writeType n s [] t = Some a"
      and k: "Kind (s ! t) = MapKind"
      and wb: "writeMany (writeEntry (writeValue n s)) kvs = Some b"
      and e: "e = a @ [Boolean False, Uint32 (length kvs)] @ b"
      by (auto split: option.splits if_splits)
    have "writeMany (writeEntry (writeValue (Suc n) s)) kvs = Some b"
      by (rule writeMany_mono [OF _ wb]) (rule writeEntry_mono [OF IH])
    with ty [OF wt] k show ?thesis by (auto simp: MapLeafV e)
  next
    case (MetaV t mts)
    with Suc.prems obtain a b where wt: "writeType n s [] t = Some a"
      and k: "Kind (s ! t) = BlobKind \<or> Kind (s ! t) = ListKind \<or> Kind (s ! t) = SetKind
                \<or> Kind (s ! t) = MapKind"
      and wb: "writeMany (writeMetaTuple (writeValue n s)) mts = Some b"
      and e: "e = a @ [Boolean True, Uint32 (length mts)] @ b"
      by (auto split: option.splits if_splits)
    have "writeMany (writeMetaTuple (writeValue (Suc n) s)) mts = Some b"
      by (rule writeMany_mono [OF _ wb]) (rule writeMetaTuple_mono [OF IH])
    with ty [OF wt] k show ?thesis by (auto simp: MetaV e)
  next
    case (StructV t data)
    with Suc.prems obtain a b name flds where wt: "writeType n s [] t = Some a"
      and d: "Desc (s ! t) = StructDesc name flds"
      and wb: "writeMany (writeField (writeValue n s) data) (map fst (IterFields flds)) = Some b"
      and e: "e = a @ b"
      by (auto split: option.splits TypeDesc.splits)
    have "writeMany (writeField (writeValue (Suc n) s) data) (map fst (IterFields flds)) = Some b"
      by (rule writeMany_mono [OF _ wb]) (rule writeField_mono [OF IH])
    with ty [OF wt] d show ?thesis by (simp add: StructV e)
  next
    case (RefV t h ht)
    with Suc.prems obtain a where wt: "writeType n s [] t = Some a"
      and k: "Kind (s ! t) = RefKind" and e: "e = a @ writeHash h @ [Uint64 ht]"
      by (auto split: option.splits if_splits)
    with ty [OF wt] show ?thesis by (simp add: RefV)
  next
    case (TypeV t)
    with Suc.prems obtain a where wt: "writeType n s [] t = Some a"
      and e: "e = writeKind TypeKind @ a"
      by (auto split: option.splits)
    with ty [OF wt] show ?thesis by (simp add: TypeV)
  qed (use Suc.prems in simp_all)
qed

lemma writeValue_fuel_mono:
  assumes "writeValue n s v = Some e" "n \<le> m"
  shows "writeValue m s v = Some e"
  using assms(2,1) by (induction rule: dec_induct) (auto intro: writeValue_fuel_Suc)

lemma writeMany_total:
  fixes w :: "nat \<Rightarrow> 'a \<Rightarrow> token list option"
  assumes mono: "\<And>n m x e. w n x = Some e \<Longrightarrow> n \<le> m \<Longrightarrow> w m x = Some e"
    and each: "\<forall>x \<in> set xs. \<exists>n e. w n x = Some e"
  shows "\<exists>n b. writeMany (w n) xs = Some b"
  using each
proof (induction xs)
  case Nil
  show ?case by simp
next
  case (Cons x xs)
  then obtain n1 a where a: "w n1 x = Some a" by auto
  from Cons obtain n2 b where b: "writeMany (w n2) xs = Some b" by auto
  have "w (max n1 n2) x = Some a" by (rule mono [OF a]) simp
  moreover have "writeMany (w (max n1 n2)) xs = Some b"
    by (rule writeMany_mono [OF _ b]) (rule mono, assumption, simp)
  ultimately have "writeMany (w (max n1 n2)) (x # xs) = Some (a @ b)" by simp
  then show ?case by blast
qed

lemma writeType_total:
  "downward s \<Longrightarrow> t < length s \<Longrightarrow> \<exists>n a. writeType n s [] t = Some a"
  by (rule encodable_writeType [OF downward_encodable])

lemma header_and_many:
  fixes w :: "nat \<Rightarrow> 'a \<Rightarrow> token list option"
  assumes dw: "downward s" and t: "t < length s"
    and mono: "\<And>n m x e. w n x = Some e \<Longrightarrow> n \<le> m \<Longrightarrow> w m x = Some e"
    and each: "\<forall>x \<in> set xs. \<exists>n e. w n x = Some e"
  shows "\<exists>n a b. writeType n s [] t = Some a \<and> writeMany (w n) xs = Some b"
proof -
  from writeType_total [OF dw t] obtain n1 a where a: "writeType n1 s [] t = Some a" by blast
  have "\<exists>n b. writeMany (w n) xs = Some b"
  proof (rule writeMany_total [of w])
    show "\<And>n m x e. w n x = Some e \<Longrightarrow> n \<le> m \<Longrightarrow> w m x = Some e" by (rule mono)
    show "\<forall>x \<in> set xs. \<exists>n e. w n x = Some e" by (rule each)
  qed
  then obtain n2 b where b: "writeMany (w n2) xs = Some b" by blast
  have "writeType (max n1 n2) s [] t = Some a" by (rule writeType_fuel_mono [OF a]) simp
  moreover have "writeMany (w (max n1 n2)) xs = Some b"
    by (rule writeMany_mono [OF _ b]) (rule mono, assumption, simp)
  ultimately show ?thesis by blast
qed

lemma writeEntry_fuel_mono:
  assumes "writeEntry (writeValue n s) kv = Some e" "n \<le> m"
  shows "writeEntry (writeValue m s) kv = Some e"
  by (rule writeEntry_mono [OF _ assms(1)]) (rule writeValue_fuel_mono, assumption, rule assms(2))

lemma writeMetaTuple_fuel_mono:
  assumes "writeMetaTuple (writeValue n s) mt = Some e" "n \<le> m"
  shows "writeMetaTuple (writeValue m s) mt = Some e"
  by (rule writeMetaTuple_mono [OF _ assms(1)]) (rule writeValue_fuel_mono, assumption, rule assms(2))

lemma writeField_fuel_mono:
  assumes "writeField (writeValue n s) data nm = Some e" "n \<le> m"
  shows "writeField (writeValue m s) data nm = Some e"
  by (rule writeField_mono [OF _ assms(1)]) (rule writeValue_fuel_mono, assumption, rule assms(2))

lemma writeValue_total:
  assumes dw: "downward s"
  shows "valueOk s v \<Longrightarrow> \<exists>n e. writeValue n s v = Some e"
proof (induction v)
  case (BoolV b)
  have "writeValue 1 s (BoolV b) = Some (writeKind BoolKind @ [Boolean b])" by simp
  then show ?case by blast
next
  case (NumberV x)
  have "writeValue 1 s (NumberV x) = Some (writeKind NumberKind @ [Float64 x])" by simp
  then show ?case by blast
next
  case (StringV x)
  have "writeValue 1 s (StringV x) = Some (writeKind StringKind @ [Str x])" by simp
  then show ?case by blast
next
  case (BlobV bytes)
  have "writeValue 1 s (BlobV bytes) = Some (writeKind BlobKind @ [Boolean False, Bytes bytes])"
    by simp
  then show ?case by blast
next
  case (LeafV t vs)
  from LeafV.prems have t: "t < length s"
    and k: "Kind (s ! t) = ListKind \<or> Kind (s ! t) = SetKind"
    and vs: "\<forall>v \<in> set vs. valueOk s v" by (simp_all add: list_all_iff)
  have each: "\<forall>v \<in> set vs. \<exists>n e. writeValue n s v = Some e"
  proof
    fix v assume v: "v \<in> set vs"
    with vs have "valueOk s v" by simp
    with v show "\<exists>n e. writeValue n s v = Some e" by (rule LeafV.IH)
  qed
  have "\<exists>n a b. writeType n s [] t = Some a \<and> writeMany (writeValue n s) vs = Some b"
  proof (rule header_and_many [of s t "\<lambda>n. writeValue n s" vs, OF dw t])
    show "\<And>n m x e. writeValue n s x = Some e \<Longrightarrow> n \<le> m \<Longrightarrow> writeValue m s x = Some e"
      by (rule writeValue_fuel_mono)
    show "\<forall>x \<in> set vs. \<exists>n e. writeValue n s x = Some e" by (rule each)
  qed
  then obtain n a b where a: "writeType n s [] t = Some a"
    and b: "writeMany (writeValue n s) vs = Some b" by blast
  have "writeValue (Suc n) s (LeafV t vs) = Some (a @ [Boolean False, Uint32 (length vs)] @ b)"
    using k by (auto simp: a b)
  then show ?case by blast
next
  case (MapLeafV t kvs)
  from MapLeafV.prems have t: "t < length s" and k: "Kind (s ! t) = MapKind"
    and kvs: "\<forall>kv \<in> set kvs. valueOk s (fst kv) \<and> valueOk s (snd kv)"
    by (auto simp: list_all_iff)
  have each: "\<forall>kv \<in> set kvs. \<exists>n e. writeEntry (writeValue n s) kv = Some e"
  proof
    fix kv assume kv: "kv \<in> set kvs"
    from kv kvs have ok: "valueOk s (fst kv)" "valueOk s (snd kv)" by simp_all
    have "\<exists>n e. writeValue n s (fst kv) = Some e"
      by (rule MapLeafV.IH(1) [OF kv _ ok(1)]) (cases kv, simp)
    then obtain n1 a where a: "writeValue n1 s (fst kv) = Some a" by blast
    have "\<exists>n e. writeValue n s (snd kv) = Some e"
      by (rule MapLeafV.IH(2) [OF kv _ ok(2)]) (cases kv, simp)
    then obtain n2 b where b: "writeValue n2 s (snd kv) = Some b" by blast
    have "writeValue (max n1 n2) s (fst kv) = Some a" by (rule writeValue_fuel_mono [OF a]) simp
    moreover have "writeValue (max n1 n2) s (snd kv) = Some b"
      by (rule writeValue_fuel_mono [OF b]) simp
    ultimately have "writeEntry (writeValue (max n1 n2) s) kv = Some (a @ b)"
      by (simp add: writeEntry_def)
    then show "\<exists>n e. writeEntry (writeValue n s) kv = Some e" by blast
  qed
  have "\<exists>n a b. writeType n s [] t = Some a
      \<and> writeMany (writeEntry (writeValue n s)) kvs = Some b"
  proof (rule header_and_many [of s t "\<lambda>n. writeEntry (writeValue n s)" kvs, OF dw t])
    show "\<And>n m x e. writeEntry (writeValue n s) x = Some e \<Longrightarrow> n \<le> m
        \<Longrightarrow> writeEntry (writeValue m s) x = Some e"
      by (rule writeEntry_fuel_mono)
    show "\<forall>x \<in> set kvs. \<exists>n e. writeEntry (writeValue n s) x = Some e" by (rule each)
  qed
  then obtain n a b where a: "writeType n s [] t = Some a"
    and b: "writeMany (writeEntry (writeValue n s)) kvs = Some b" by blast
  have "writeValue (Suc n) s (MapLeafV t kvs)
      = Some (a @ [Boolean False, Uint32 (length kvs)] @ b)"
    using k by (simp add: a b)
  then show ?case by blast
next
  case (MetaV t mts)
  from MetaV.prems have t: "t < length s"
    and k: "Kind (s ! t) = BlobKind \<or> Kind (s ! t) = ListKind \<or> Kind (s ! t) = SetKind
              \<or> Kind (s ! t) = MapKind"
    and mts: "\<forall>mt \<in> set mts. valueOk s (fst mt) \<and> valueOk s (fst (snd mt))"
    by (auto simp: list_all_iff)
  have each: "\<forall>mt \<in> set mts. \<exists>n e. writeMetaTuple (writeValue n s) mt = Some e"
  proof
    fix mt assume mt: "mt \<in> set mts"
    from mt mts have ok: "valueOk s (fst mt)" "valueOk s (fst (snd mt))" by simp_all
    have "\<exists>n e. writeValue n s (fst mt) = Some e"
      by (rule MetaV.IH(1) [OF mt _ ok(1)]) (cases mt, simp)
    then obtain n1 a where a: "writeValue n1 s (fst mt) = Some a" by blast
    have "\<exists>n e. writeValue n s (fst (snd mt)) = Some e"
    proof (rule MetaV.IH(2) [OF mt _ _ ok(2)])
      show "snd mt \<in> Basic_BNFs.snds mt" by (cases mt) simp
      show "fst (snd mt) \<in> Basic_BNFs.fsts (snd mt)" by (cases "snd mt") simp
    qed
    then obtain n2 b where b: "writeValue n2 s (fst (snd mt)) = Some b" by blast
    have "writeValue (max n1 n2) s (fst mt) = Some a" by (rule writeValue_fuel_mono [OF a]) simp
    moreover have "writeValue (max n1 n2) s (fst (snd mt)) = Some b"
      by (rule writeValue_fuel_mono [OF b]) simp
    ultimately have "writeMetaTuple (writeValue (max n1 n2) s) mt
        = Some (a @ b @ [Uint64 (snd (snd mt))])"
      by (simp add: writeMetaTuple_def)
    then show "\<exists>n e. writeMetaTuple (writeValue n s) mt = Some e" by blast
  qed
  have "\<exists>n a b. writeType n s [] t = Some a
      \<and> writeMany (writeMetaTuple (writeValue n s)) mts = Some b"
  proof (rule header_and_many [of s t "\<lambda>n. writeMetaTuple (writeValue n s)" mts, OF dw t])
    show "\<And>n m x e. writeMetaTuple (writeValue n s) x = Some e \<Longrightarrow> n \<le> m
        \<Longrightarrow> writeMetaTuple (writeValue m s) x = Some e"
      by (rule writeMetaTuple_fuel_mono)
    show "\<forall>x \<in> set mts. \<exists>n e. writeMetaTuple (writeValue n s) x = Some e" by (rule each)
  qed
  then obtain n a b where a: "writeType n s [] t = Some a"
    and b: "writeMany (writeMetaTuple (writeValue n s)) mts = Some b" by blast
  have "writeValue (Suc n) s (MetaV t mts)
      = Some (a @ [Boolean True, Uint32 (length mts)] @ b)"
    using k by (auto simp: a b)
  then show ?case by blast
next
  case (StructV t data)
  from StructV.prems have t: "t < length s"
    and vs: "\<forall>fv \<in> set data. valueOk s (snd fv)"
    by (simp_all add: list_all_iff case_prod_beta)
  from StructV.prems obtain name flds where d: "Desc (s ! t) = StructDesc name flds"
    and has: "\<forall>nm \<in> set (map fst flds). map_of data nm \<noteq> None"
    by (cases "Desc (s ! t)") (simp_all add: list_all_iff)
  let ?names = "map fst (IterFields flds)"
  have each: "\<forall>nm \<in> set ?names. \<exists>n e. writeField (writeValue n s) data nm = Some e"
  proof
    fix nm assume "nm \<in> set ?names"
    then have "nm \<in> set (map fst flds)" by (simp add: set_IterFields)
    with has obtain v where v: "map_of data nm = Some v" by auto
    then have in_data: "(nm, v) \<in> set data" by (rule map_of_SomeD)
    with vs have ok: "valueOk s v" by auto
    have "\<exists>n e. writeValue n s v = Some e"
      by (rule StructV.IH [OF in_data _ ok]) simp
    then obtain n e where "writeValue n s v = Some e" by blast
    with v have "writeField (writeValue n s) data nm = Some e" by (simp add: writeField_def)
    then show "\<exists>n e. writeField (writeValue n s) data nm = Some e" by blast
  qed
  have "\<exists>n a b. writeType n s [] t = Some a
      \<and> writeMany (writeField (writeValue n s) data) ?names = Some b"
  proof (rule header_and_many [of s t "\<lambda>n. writeField (writeValue n s) data" ?names, OF dw t])
    show "\<And>n m x e. writeField (writeValue n s) data x = Some e \<Longrightarrow> n \<le> m
        \<Longrightarrow> writeField (writeValue m s) data x = Some e"
      by (rule writeField_fuel_mono)
    show "\<forall>x \<in> set ?names. \<exists>n e. writeField (writeValue n s) data x = Some e" by (rule each)
  qed
  then obtain n a b where a: "writeType n s [] t = Some a"
    and b: "writeMany (writeField (writeValue n s) data) ?names = Some b" by blast
  have "writeValue (Suc n) s (StructV t data) = Some (a @ b)"
    using d by (simp add: a b)
  then show ?case by blast
next
  case (RefV t h ht)
  then have t: "t < length s" and k: "Kind (s ! t) = RefKind" by simp_all
  from writeType_total [OF dw t] obtain n a where "writeType n s [] t = Some a" by blast
  with k have "writeValue (Suc n) s (RefV t h ht) = Some (a @ writeHash h @ [Uint64 ht])" by simp
  then show ?case by blast
next
  case (TypeV t)
  then have t: "t < length s" by simp
  from writeType_total [OF dw t] obtain n a where "writeType n s [] t = Some a" by blast
  then have "writeValue (Suc n) s (TypeV t) = Some (writeKind TypeKind @ a)" by simp
  then show ?case by blast
qed



lemma writeMany_concat:
  "writeMany w xs = Some b \<Longrightarrow> \<exists>es. map w xs = map Some es \<and> b = concat es"
proof (induction xs arbitrary: b)
  case Nil
  then show ?case by simp
next
  case (Cons x xs)
  from Cons.prems obtain a c where a: "w x = Some a" and c: "writeMany w xs = Some c"
    and b: "b = a @ c" unfolding writeMany_Cons_Some by blast
  from Cons.IH [OF c] obtain es where "map w xs = map Some es" "c = concat es" by blast
  with a b have "map w (x # xs) = map Some (a # es) \<and> b = concat (a # es)" by simp
  then show ?case by blast
qed

lemma IterFields_permutation:
  assumes m: "mset flds2 = mset flds" and d: "distinct (map fst flds)"
  shows "IterFields flds2 = IterFields flds"
proof -
  have inj: "\<forall>a \<in> set (IterFields flds). \<forall>b \<in> set (IterFields flds). fst a = fst b \<longrightarrow> id a = id b"
  proof (intro ballI impI)
    fix a b assume "a \<in> set (IterFields flds)" "b \<in> set (IterFields flds)" "fst a = fst b"
    then have "a \<in> set flds" "b \<in> set flds" "fst a = fst b" by (simp_all add: set_IterFields)
    with d show "id a = id b" by (simp add: distinct_map inj_on_def)
  qed
  have "map id (IterFields flds) = map id (IterFields flds2)"
  proof (rule sorted_perm_same_keys [OF _ _ _ inj])
    show "mset (IterFields flds) = mset (IterFields flds2)" by (simp add: IterFields_def m)
    show "sorted (map fst (IterFields flds))" by (simp add: IterFields_def)
    show "sorted (map fst (IterFields flds2))" by (simp add: IterFields_def)
  qed
  then show ?thesis by simp
qed

lemma decodeValue_struct:
  assumes ok: "types_ok s" and un: "fields_unique s" and pr: "prims_ok s0"
    and d: "Desc (s ! t) = StructDesc name flds"
    and w: "writeValue n s (StructV t data) = Some e"
  shows "\<exists>t' vs' s1 flds'.
           decodeValue s0 e = Some (StructV t' (zip (map fst (IterFields flds)) vs'), s1)
           \<and> length vs' = length flds
           \<and> Desc (s1 ! t') = StructDesc name flds'
           \<and> map fst (IterFields flds') = map fst (IterFields flds)
           \<and> writeValue n s1 (StructV t' (zip (map fst (IterFields flds)) vs')) = Some e"
proof -
  let ?names = "map fst (IterFields flds)"
  from w obtain n1 where n: "n = Suc n1" by (cases n) simp_all
  from w d obtain a b where wt: "writeType n1 s [] t = Some a"
    and wb: "writeMany (writeField (writeValue n1 s) data) ?names = Some b"
    and e: "e = a @ b"
    by (auto simp: n split: option.splits)
  have la: "length a \<le> length e" and lb: "length b \<le> length e" using e by simp_all
  have dn: "distinct ?names"
    using fields_uniqueD [OF un writeType_in_store [OF wt] d] by (simp add: distinct_IterFields)
  from reads_header [OF ok wt la pr, of "b"]
  obtain t' s1 where rt: "readType (length e) [] s0 (a @ b) = Some (t', s1, b)"
    and r1: "rebuilt s0 s1 [] (\<lambda>s3. writeType n1 s3 [] t' = Some a \<and> typeShape s3 t' = typeShape s t)"
    and p1: "prims_ok s1" and sh: "typeShape s1 t' = typeShape s t" by blast
  from typeShape_struct [OF d sh] obtain name1 flds1 where
    d1: "Desc (s1 ! t') = StructDesc name1 flds1"
    and n1: "map fst (IterFields flds1) = ?names" by blast
  have lf: "length flds1 = length ?names" using arg_cong [OF n1, of length] by simp
  from writeType_nonempty [OF wt] obtain m' where m: "length e = Suc m'"
    by (cases "length e") (simp_all add: e)
  have lb': "length b \<le> m'" using m e writeType_nonempty [OF wt] by (cases a) simp_all
  from readMany_writeMany [OF reads_with_field [OF reads_value_all [OF ok un]] wb lb' p1, of "[]"]
  obtain vs' s2 where
    rm: "readMany (readValue (Suc m')) (length ?names) s1 b = Some (vs', s2, [])"
    and l: "length vs' = length ?names"
    and r2: "rebuilt s1 s2 [] (\<lambda>s3. writeMany (writeValue n1 s3) vs' = Some b)" by auto
  have rd: "readValue (Suc (length e)) s0 e = Some (StructV t' (zip ?names vs'), s2, [])"
    using readValue_Struct [OF rt d1] rm by (simp add: e m [symmetric] lf n1)
  from rebuilt_now [OF rebuilt_seq [OF r1 r2] pr]
  have w2: "writeType n1 s2 [] t' = Some a" and sh2: "typeShape s2 t' = typeShape s t"
    and wv: "writeMany (writeValue n1 s2) vs' = Some b" by simp_all
  from typeShape_struct [OF d sh2] obtain name2 flds2 where
    d2: "Desc (s2 ! t') = StructDesc name2 flds2"
    and n2: "map fst (IterFields flds2) = ?names" by blast
  have "writeMany (writeField (writeValue n1 s2) (zip ?names vs')) ?names
      = writeMany (writeValue n1 s2) vs'"
    by (rule writeMany_zip [OF dn l])
  then have we: "writeValue n s2 (StructV t' (zip ?names vs')) = Some e"
    using w2 wv d2 n2 by (simp add: e n)
  obtain n0 where n0: "n1 = Suc n0" using wt by (cases n1) simp_all
  have 1: "writeType n1 s [] t
      = map_option (\<lambda>ts. writeKind StructKind @ [Str name, Uint32 (length flds)] @ ts)
          (writeFields n0 s [t] (IterFields flds))"
    unfolding n0 by (rule writeType_struct [OF writeType_in_store [OF wt] d]) simp
  have 2: "writeType n1 s2 [] t'
      = map_option (\<lambda>ts. writeKind StructKind @ [Str name2, Uint32 (length flds2)] @ ts)
          (writeFields n0 s2 [t'] (IterFields flds2))"
    unfolding n0 by (rule writeType_struct [OF writeType_in_store [OF w2] d2]) simp
  from wt [unfolded 1] w2 [unfolded 2] have "name2 = name" by (auto simp: writeKind_def)
  moreover have "decodeValue s0 e = Some (StructV t' (zip ?names vs'), s2)"
    unfolding decodeValue_def rd by simp
  ultimately have "decodeValue s0 e = Some (StructV t' (zip ?names vs'), s2)
      \<and> length vs' = length flds \<and> Desc (s2 ! t') = StructDesc name flds2
      \<and> map fst (IterFields flds2) = ?names
      \<and> writeValue n s2 (StructV t' (zip ?names vs')) = Some e"
    using l we d2 n2 by simp
  then show ?thesis by blast
qed

lemma struct_wire_format:
  assumes d: "Desc (s ! t) = StructDesc name flds"
    and w: "writeValue n s (StructV t data) = Some e"
  shows "\<exists>n1 n2 tf ves.
            e = writeKind StructKind @ [Str name, Uint32 (length flds)] @ tf @ concat ves
            \<and> writeFields n2 s [t] (IterFields flds) = Some tf
            \<and> map (writeField (writeValue n1 s) data) (map fst (IterFields flds)) = map Some ves"
proof -
  from w obtain n1 where n: "n = Suc n1" by (cases n) simp_all
  from w d obtain a b where wt: "writeType n1 s [] t = Some a"
    and wb: "writeMany (writeField (writeValue n1 s) data) (map fst (IterFields flds)) = Some b"
    and e: "e = a @ b"
    by (auto simp: n split: option.splits)
  obtain n2 where n2: "n1 = Suc n2" using wt by (cases n1) simp_all
  have 1: "writeType n1 s [] t
      = map_option (\<lambda>ts. writeKind StructKind @ [Str name, Uint32 (length flds)] @ ts)
          (writeFields n2 s [t] (IterFields flds))"
    unfolding n2 by (rule writeType_struct [OF writeType_in_store [OF wt] d]) simp
  from wt [unfolded 1] obtain tf where tf: "writeFields n2 s [t] (IterFields flds) = Some tf"
    and a: "a = writeKind StructKind @ [Str name, Uint32 (length flds)] @ tf"
    by auto
  from writeMany_concat [OF wb] obtain ves where
    "map (writeField (writeValue n1 s) data) (map fst (IterFields flds)) = map Some ves"
    "b = concat ves" by blast
  with tf a e show ?thesis
    by (intro exI [of _ n1] exI [of _ n2] exI [of _ tf] exI [of _ ves]) simp
qed

text \<open>
  C2. In a store as the constructors build it, every struct value that can be
  constructed has an encoding. The encoding is the kind, the name and the number of
  fields, then the (name, type) pairs of the fields and then the field values, both in
  the canonical order \<open>IterFields\<close> of the fields of the type; the decoder reads a
  struct whose data is in that order, of a type of the same name and the same canonical
  order, and whose encoding is the same. The canonical order is ascending field name:
  strictly sorted names, a permutation of the fields given, the same for every order
  the fields were given in.
\<close>

theorem struct_fields_in_name_order:
  assumes ok: "types_ok s" and pr: "prims_ok s" and dw: "downward s" and un: "fields_unique s"
    and d: "Desc (s ! t) = StructDesc name flds"
    and v: "valueOk s (StructV t data)"
  shows "(\<exists>n e. writeValue n s (StructV t data) = Some e)
       \<and> (\<forall>n e. writeValue n s (StructV t data) = Some e \<longrightarrow>
            (\<exists>n1 n2 tf ves.
               e = writeKind StructKind @ [Str name, Uint32 (length flds)] @ tf @ concat ves
               \<and> writeFields n2 s [t] (IterFields flds) = Some tf
               \<and> map (writeField (writeValue n1 s) data) (map fst (IterFields flds)) = map Some ves)
            \<and> (\<exists>t' vs' s1 flds'.
               decodeValue s e = Some (StructV t' (zip (map fst (IterFields flds)) vs'), s1)
               \<and> length vs' = length flds
               \<and> Desc (s1 ! t') = StructDesc name flds'
               \<and> map fst (IterFields flds') = map fst (IterFields flds)
               \<and> writeValue n s1 (StructV t' (zip (map fst (IterFields flds)) vs')) = Some e))
       \<and> sorted_wrt (<) (map fst (IterFields flds)) \<and> mset (IterFields flds) = mset flds
       \<and> (\<forall>flds2. mset flds2 = mset flds \<longrightarrow> IterFields flds2 = IterFields flds)"
proof (intro conjI allI impI)
  show "\<exists>n e. writeValue n s (StructV t data) = Some e" by (rule writeValue_total [OF dw v])
next
  fix n e assume w: "writeValue n s (StructV t data) = Some e"
  show "\<exists>n1 n2 tf ves.
            e = writeKind StructKind @ [Str name, Uint32 (length flds)] @ tf @ concat ves
            \<and> writeFields n2 s [t] (IterFields flds) = Some tf
            \<and> map (writeField (writeValue n1 s) data) (map fst (IterFields flds)) = map Some ves"
    by (rule struct_wire_format [OF d w])
  show "\<exists>t' vs' s1 flds'.
            decodeValue s e = Some (StructV t' (zip (map fst (IterFields flds)) vs'), s1)
            \<and> length vs' = length flds
            \<and> Desc (s1 ! t') = StructDesc name flds'
            \<and> map fst (IterFields flds') = map fst (IterFields flds)
            \<and> writeValue n s1 (StructV t' (zip (map fst (IterFields flds)) vs')) = Some e"
    by (rule decodeValue_struct [OF ok un pr d w])
next
  from v have t: "t < length s" by simp
  have dn: "distinct (map fst flds)" by (rule fields_uniqueD [OF un t d])
  then have "distinct (map fst (IterFields flds))" by (simp add: distinct_IterFields)
  moreover have "sorted (map fst (IterFields flds))" by (simp add: IterFields_def)
  ultimately show "sorted_wrt (<) (map fst (IterFields flds))" by (simp add: strict_sorted_iff)
  show "mset (IterFields flds) = mset flds" by (simp add: IterFields_def)
  fix flds2 assume "mset flds2 = mset flds"
  then show "IterFields flds2 = IterFields flds" using dn by (rule IterFields_permutation)
qed












text \<open>
  The struct of test 'struct' is given the fields \<open>x\<close>, \<open>b\<close> in this order; its
  encoding, the one the test expects, has \<open>b\<close> before \<open>x\<close>, types and values, and so
  has the struct read back: the canonical order is not the order of insertion.
\<close>

theorem struct_fields_not_in_insertion_order:
  "fst sStruct = StructV 7 [(''x'', NumberV 0x4045000000000000), (''b'', BoolV True)]
   \<and> Desc (snd sStruct ! 7) = StructDesc ''S'' [(''x'', NumberType), (''b'', BoolType)]
   \<and> writeValue 3 (snd sStruct) (fst sStruct)
       = Some [Uint8 8, Str ''S'', Uint32 2, Str ''b'', Uint8 0, Str ''x'', Uint8 1,
               Uint8 0, Boolean True, Uint8 1, Float64 0x4045000000000000]
   \<and> map_option fst (decodeValue (snd sStruct)
         [Uint8 8, Str ''S'', Uint32 2, Str ''b'', Uint8 0, Str ''x'', Uint8 1,
          Uint8 0, Boolean True, Uint8 1, Float64 0x4045000000000000])
       = Some (StructV 8 [(''b'', BoolV True), (''x'', NumberV 0x4045000000000000)])
   \<and> map fst (IterFields [(''x'', NumberType), (''b'', BoolType)]) \<noteq> [''x'', ''b'']"
  by code_simp

lemma sStruct_ok:
  "types_ok (snd sStruct)" "prims_ok (snd sStruct)" "downward (snd sStruct)"
  "fields_unique (snd sStruct)"
  "Desc (snd sStruct ! 7) = StructDesc ''S'' [(''x'', NumberType), (''b'', BoolType)]"
  "valueOk (snd sStruct) (StructV 7 [(''x'', NumberV 0x4045000000000000), (''b'', BoolV True)])"
  by code_simp+

lemma sStruct_encoding:
  "writeValue 3 (snd sStruct) (StructV 7 [(''x'', NumberV 0x4045000000000000), (''b'', BoolV True)])
     = Some [Uint8 8, Str ''S'', Uint32 2, Str ''b'', Uint8 0, Str ''x'', Uint8 1,
             Uint8 0, Boolean True, Uint8 1, Float64 0x4045000000000000]"
  by code_simp

lemma sStruct_canonical:
  "map fst (IterFields [(''x'', NumberType), (''b'', BoolType)]) = [''b'', ''x'']"
  by code_simp

theorem struct_fields_in_name_order_witness:
  "sorted_wrt (<) (map fst (IterFields [(''x'', NumberType), (''b'', BoolType)]))
   \<and> map fst (IterFields [(''x'', NumberType), (''b'', BoolType)]) = [''b'', ''x'']
   \<and> (\<exists>t' vs' s1 flds'.
         decodeValue (snd sStruct)
           [Uint8 8, Str ''S'', Uint32 2, Str ''b'', Uint8 0, Str ''x'', Uint8 1,
            Uint8 0, Boolean True, Uint8 1, Float64 0x4045000000000000]
           = Some (StructV t' (zip (map fst (IterFields [(''x'', NumberType), (''b'', BoolType)])) vs'), s1)
         \<and> length vs' = length [(''x'', NumberType), (''b'', BoolType)]
         \<and> Desc (s1 ! t') = StructDesc ''S'' flds'
         \<and> map fst (IterFields flds') = map fst (IterFields [(''x'', NumberType), (''b'', BoolType)])
         \<and> writeValue 3 s1 (StructV t' (zip (map fst (IterFields [(''x'', NumberType), (''b'', BoolType)])) vs'))
             = Some [Uint8 8, Str ''S'', Uint32 2, Str ''b'', Uint8 0, Str ''x'', Uint8 1,
                     Uint8 0, Boolean True, Uint8 1, Float64 0x4045000000000000])"
proof -
  note T = struct_fields_in_name_order [OF sStruct_ok]
  note D = T [THEN conjunct2, THEN conjunct1, THEN spec, THEN spec, THEN mp, OF sStruct_encoding,
      THEN conjunct2]
  show ?thesis
    by (intro conjI T [THEN conjunct2, THEN conjunct2, THEN conjunct1] D sStruct_canonical)
qed

text \<open>
  The encodings the test suite expects of the recursive struct, the compound blob, the
  map of maps, the simple blob, the type of types and \<open>1e18\<close>.
\<close>

lemma codec_test_vectors:
  "writeValue 5 (snd recValue) (fst recValue)
     = Some [Uint8 8, Str ''A6'', Uint32 2, Str ''cs'', Uint8 4, Uint8 10, Uint32 0, Str ''v'', Uint8 1,
             Uint8 4, Uint8 11, Uint32 0, Boolean False, Uint32 0,
             Uint8 1, Float64 0x4045000000000000]"
  "writeValue 5 (snd compoundBlob) (fst compoundBlob)
     = Some [Uint8 3, Boolean True, Uint32 3,
             Uint8 6, Uint8 3, Str ''sha1-0000000000000000000000000000000000000001'', Uint64 11,
             Uint8 1, Float64 0x4034000000000000, Uint64 20,
             Uint8 6, Uint8 3, Str ''sha1-0000000000000000000000000000000000000002'', Uint64 22,
             Uint8 1, Float64 0x4044000000000000, Uint64 40,
             Uint8 6, Uint8 3, Str ''sha1-0000000000000000000000000000000000000003'', Uint64 33,
             Uint8 1, Float64 0x404e000000000000, Uint64 60]"
  "writeValue 5 (snd mapOfMap) (fst mapOfMap)
     = Some [Uint8 5, Uint8 5, Uint8 2, Uint8 1, Uint8 7, Uint8 0, Boolean False, Uint32 1,
             Uint8 5, Uint8 2, Uint8 1, Boolean False, Uint32 1, Uint8 2, Str ''a'', Uint8 1, Float64 0,
             Uint8 7, Uint8 0, Boolean False, Uint32 1, Uint8 0, Boolean True]"
  "writeValue 2 init_store (BlobV [0, 1]) = Some [Uint8 3, Boolean False, Bytes [0, 1]]"
  "writeValue 2 init_store (TypeV TypeType) = Some [Uint8 9, Uint8 9]"
  "writeValue 2 init_store (NumberV 0x43abc16d674ec800) = Some [Uint8 1, Float64 0x43abc16d674ec800]"
  by code_simp+

end
